theory Spec2Isabelle
  imports Complex_Main "HOL-Library.Log_Nat" "HOL-Library.Multiset"
begin

section \<open>Coalition search and agreement scoring of the coalition simulator (app.js)\<close>

text \<open>
  The development embeds the search and scoring core of \<^verbatim>\<open>src/app.js\<close>:
  \<^verbatim>\<open>getCombinations\<close>, \<^verbatim>\<open>generateMajorityCoalitions\<close>,
  \<^verbatim>\<open>calculateCoalitionAgreement\<close> and \<^verbatim>\<open>findBestCoalitions\<close>.
  The globals \<^verbatim>\<open>parties\<close> and \<^verbatim>\<open>statements\<close> are only read by these functions and
  are passed as explicit arguments; the value of the \<^verbatim>\<open>requiredParty\<close> dropdown is an
  argument of \<open>findBestCoalitions\<close>, and its result is the list handed to
  \<^verbatim>\<open>displayCoalitionSuggestions\<close>.
\<close>

subsection \<open>JavaScript numbers\<close>

text \<open>
  A JavaScript number is an IEEE 754 binary64 value. A finite one is represented by the
  rational it denotes; the other values are NaN and the two infinities. The sign of a
  zero is not represented: the program never divides by a computed zero (its only divisor
  that can be zero is \<^verbatim>\<open>statements.length\<close>, a positive zero), so the sign cannot be
  observed.

  Seat counts, their sums and the list lengths are integers, on which the arithmetic of
  the program is exact as long as they stay below \<open>2\<^sup>5\<^sup>3\<close>; they are modelled as integers
  and enter the floating-point computations as \<open>Num (of_int n)\<close>.
\<close>

datatype jsnum = Num rat | NaN | PosInf | NegInf

text \<open>
  The power \<open>2\<^sup>e\<close> for an integer \<open>e\<close>, and the binary exponent of a positive rational:
  the \<open>e\<close> with \<open>2\<^sup>e \<le> x < 2\<^sup>e\<^sup>+\<^sup>1\<close>, found from the bit lengths of numerator and
  denominator.
\<close>

definition pow2 :: "int \<Rightarrow> rat" where
  "pow2 e = (if 0 \<le> e then of_int (2 ^ nat e) else 1 / of_int (2 ^ nat (- e)))"

definition ilog2 :: "rat \<Rightarrow> int" where
  "ilog2 x =
     (case quotient_of x of (p, q) \<Rightarrow>
        let d = bitlen p - bitlen q
        in if pow2 d \<le> x then d else d - 1)"

text \<open>Rounding to the nearest integer, a tie going to the even one.\<close>

definition rne :: "rat \<Rightarrow> int" where
  "rne y =
     (let f = \<lfloor>y\<rfloor>; r = y - of_int f
      in if r < 1 / 2 then f
         else if 1 / 2 < r then f + 1
         else if even f then f else f + 1)"

text \<open>
  The binary64 value of an exact result \<open>x\<close>, by round-to-nearest, ties-to-even: the
  significand has 53 bits, so \<open>x\<close> is rounded to a multiple of \<open>2\<^sup>e\<^sup>-\<^sup>5\<^sup>2\<close> where \<open>e\<close> is its
  exponent, but at least \<open>-1022\<close> (below that the values are subnormal, multiples of
  \<open>2\<^sup>-\<^sup>1\<^sup>0\<^sup>7\<^sup>4\<close>); a result that rounds to \<open>2\<^sup>1\<^sup>0\<^sup>2\<^sup>4\<close> or more is an infinity.
\<close>

definition fl :: "rat \<Rightarrow> jsnum" where
  "fl x =
     (if x = 0 then Num 0
      else
        let e = max (ilog2 \<bar>x\<bar>) (- 1022);
            m = rne (\<bar>x\<bar> / pow2 (e - 52))
        in if 1024 \<le> e \<or> (e = 1023 \<and> m = 2 ^ 53)
           then (if 0 < x then PosInf else NegInf)
           else Num (sgn x * (of_int m * pow2 (e - 52))))"

text \<open>\<^verbatim>\<open>x + y\<close>.\<close>

fun js_add :: "jsnum \<Rightarrow> jsnum \<Rightarrow> jsnum" where
  "js_add (Num a) (Num b) = fl (a + b)"
| "js_add NaN y = NaN"
| "js_add x NaN = NaN"
| "js_add PosInf NegInf = NaN"
| "js_add NegInf PosInf = NaN"
| "js_add PosInf y = PosInf"
| "js_add NegInf y = NegInf"
| "js_add x PosInf = PosInf"
| "js_add x NegInf = NegInf"

text \<open>\<^verbatim>\<open>x - y\<close>.\<close>

fun js_sub :: "jsnum \<Rightarrow> jsnum \<Rightarrow> jsnum" where
  "js_sub (Num a) (Num b) = fl (a - b)"
| "js_sub NaN y = NaN"
| "js_sub x NaN = NaN"
| "js_sub PosInf PosInf = NaN"
| "js_sub NegInf NegInf = NaN"
| "js_sub PosInf y = PosInf"
| "js_sub NegInf y = NegInf"
| "js_sub x PosInf = NegInf"
| "js_sub x NegInf = PosInf"

text \<open>\<^verbatim>\<open>x * y\<close>: an infinity times zero is NaN.\<close>

fun js_mul :: "jsnum \<Rightarrow> jsnum \<Rightarrow> jsnum" where
  "js_mul (Num a) (Num b) = fl (a * b)"
| "js_mul NaN y = NaN"
| "js_mul x NaN = NaN"
| "js_mul PosInf (Num b) = (if b = 0 then NaN else if 0 < b then PosInf else NegInf)"
| "js_mul NegInf (Num b) = (if b = 0 then NaN else if 0 < b then NegInf else PosInf)"
| "js_mul (Num a) PosInf = (if a = 0 then NaN else if 0 < a then PosInf else NegInf)"
| "js_mul (Num a) NegInf = (if a = 0 then NaN else if 0 < a then NegInf else PosInf)"
| "js_mul PosInf PosInf = PosInf"
| "js_mul PosInf NegInf = NegInf"
| "js_mul NegInf PosInf = NegInf"
| "js_mul NegInf NegInf = PosInf"

text \<open>
  \<^verbatim>\<open>x / y\<close>: \<^verbatim>\<open>0 / 0\<close> is NaN, another number divided by zero is an infinity of its sign,
  a number divided by an infinity is zero, an infinity divided by an infinity is NaN.
\<close>

fun js_div :: "jsnum \<Rightarrow> jsnum \<Rightarrow> jsnum" where
  "js_div (Num a) (Num b) =
     (if b = 0 then (if a = 0 then NaN else if 0 < a then PosInf else NegInf)
      else fl (a / b))"
| "js_div NaN y = NaN"
| "js_div x NaN = NaN"
| "js_div (Num a) y = Num 0"
| "js_div PosInf (Num b) = (if b < 0 then NegInf else PosInf)"
| "js_div NegInf (Num b) = (if b < 0 then PosInf else NegInf)"
| "js_div x y = NaN"

text \<open>\<^verbatim>\<open>Math.max(0, x)\<close>: NaN if \<open>x\<close> is NaN.\<close>

fun js_max0 :: "jsnum \<Rightarrow> jsnum" where
  "js_max0 (Num a) = Num (max 0 a)"
| "js_max0 NaN = NaN"
| "js_max0 PosInf = PosInf"
| "js_max0 NegInf = Num 0"

text \<open>
  \<^verbatim>\<open>Math.round(x)\<close>: the nearest integer, a tie going up. The result is \<open>\<lfloor>x + 1/2\<rfloor>\<close>
  computed exactly (a double of magnitude \<open>2\<^sup>5\<^sup>2\<close> or more is an integer already).
\<close>

fun js_round :: "jsnum \<Rightarrow> jsnum" where
  "js_round (Num a) = Num (of_int \<lfloor>a + 1 / 2\<rfloor>)"
| "js_round NaN = NaN"
| "js_round PosInf = PosInf"
| "js_round NegInf = NegInf"

text \<open>\<^verbatim>\<open>x < y\<close> and \<^verbatim>\<open>x <= y\<close>: false as soon as one side is NaN.\<close>

fun js_lt :: "jsnum \<Rightarrow> jsnum \<Rightarrow> bool" where
  "js_lt (Num a) (Num b) = (a < b)"
| "js_lt NaN y = False"
| "js_lt x NaN = False"
| "js_lt PosInf y = False"
| "js_lt x PosInf = True"
| "js_lt x NegInf = False"
| "js_lt NegInf y = True"

fun js_le :: "jsnum \<Rightarrow> jsnum \<Rightarrow> bool" where
  "js_le (Num a) (Num b) = (a \<le> b)"
| "js_le NaN y = False"
| "js_le x NaN = False"
| "js_le NegInf y = True"
| "js_le x PosInf = True"
| "js_le PosInf y = False"
| "js_le x NegInf = False"

subsection \<open>Data model\<close>

text \<open>The object returned by \<^verbatim>\<open>calculateCoalitionAgreement\<close>.\<close>

record score =
  agreementRate :: jsnum
  averageAgreement :: jsnum
  adjustedAgreement :: jsnum
  coalitionSize :: nat
  totalStatements :: nat
  seats :: int

text \<open>A roster entry; the search and the scoring read \<^verbatim>\<open>name\<close> and \<^verbatim>\<open>seats\<close> only.\<close>

record party =
  name :: string
  seats :: int

text \<open>
  A statement. \<^verbatim>\<open>statement.positions[party.name]\<close> is a lookup in a map from party names to
  stances: \<open>None\<close> is a missing entry (\<^verbatim>\<open>undefined\<close>), \<open>Some v\<close> a recorded number. A
  recorded value that is not a number fails the three strict comparisons of the scoring
  loop just as a missing entry does, and is not told apart from it.
\<close>

record statement =
  text' :: string
  positions :: "string \<rightharpoonup> int"

text \<open>An element of \<^verbatim>\<open>scoredCoalitions\<close>.\<close>

record scored =
  coalition :: "party list"
  score :: score

subsection \<open>getCombinations\<close>

text \<open>
  \<^verbatim>\<open>combinations.push([head, ...tail])\<close> for every \<^verbatim>\<open>tail\<close> of \<^verbatim>\<open>tailCombos\<close>.
\<close>

definition pushTails :: "'a \<Rightarrow> 'a list list \<Rightarrow> 'a list list \<Rightarrow> 'a list list" where
  "pushTails head tailCombos combinations =
     fold (\<lambda>tail cs. cs @ [head # tail]) tailCombos combinations"

text \<open>
  \<^verbatim>\<open>getCombinations(arr, size)\<close>. For \<open>size = 1\<close> it wraps every item. For \<open>size \<ge> 2\<close> the
  loop runs \<open>i\<close> from \<open>0\<close> to \<open>arr.length - size\<close> inclusive (no iteration when \<open>size\<close>
  exceeds the length) and recurses on \<^verbatim>\<open>arr.slice(i + 1)\<close> with \<open>size - 1\<close>. For
  \<open>size = 0\<close> the test \<^verbatim>\<open>size === 1\<close> fails, the loop runs at least once and recurses
  with \<open>-1\<close>, \<open>-2\<close>, ... without ever reaching \<open>1\<close>: the call does not return (the
  engine raises a stack overflow), which is the value \<open>None\<close>.
\<close>

fun getCombinations :: "'a list \<Rightarrow> nat \<Rightarrow> 'a list list option" where
  "getCombinations arr 0 = None"
| "getCombinations arr (Suc 0) = Some (map (\<lambda>item. [item]) arr)"
| "getCombinations arr (Suc (Suc n)) =
     fold (\<lambda>i acc.
            case acc of
              None \<Rightarrow> None
            | Some combinations \<Rightarrow>
                (case getCombinations (drop (i + 1) arr) (Suc n) of
                   None \<Rightarrow> None
                 | Some tailCombos \<Rightarrow> Some (pushTails (arr ! i) tailCombos combinations)))
          [0 ..< Suc (length arr) - Suc (Suc n)]
          (Some [])"

subsection \<open>generateMajorityCoalitions\<close>

text \<open>
  The argument \<^verbatim>\<open>requiredPartyName\<close> is \<^verbatim>\<open>null\<close> (\<open>None\<close>, the default) or a string. In
  a condition it counts as true when it is a non-empty string.
\<close>

fun truthy :: "string option \<Rightarrow> bool" where
  "truthy None = False"
| "truthy (Some s) = (s \<noteq> [])"

text \<open>\<^verbatim>\<open>coalition.reduce((sum, p) => sum + p.seats, 0)\<close>.\<close>

definition coalitionSeats :: "party list \<Rightarrow> int" where
  "coalitionSeats c = foldl (\<lambda>sum p. sum + party.seats p) 0 c"

text \<open>The body of the inner loop: one candidate \<^verbatim>\<open>combo\<close>.\<close>

definition comboStep :: "party list \<Rightarrow> party list \<Rightarrow> party list list \<Rightarrow> party list list" where
  "comboStep requiredParties combo coalitions =
     (let coalition = requiredParties @ combo;
          seats = coalitionSeats coalition
      in if 76 \<le> seats then coalitions @ [coalition] else coalitions)"

text \<open>The body of the outer loop: one \<^verbatim>\<open>size\<close>.\<close>

definition sizeStep ::
  "party list \<Rightarrow> party list \<Rightarrow> nat \<Rightarrow> party list list option \<Rightarrow> party list list option" where
  "sizeStep requiredParties availableParties size' acc =
     (case acc of
        None \<Rightarrow> None
      | Some coalitions \<Rightarrow>
          (case getCombinations availableParties size' of
             None \<Rightarrow> None
           | Some combinations \<Rightarrow> Some (fold (comboStep requiredParties) combinations coalitions)))"

definition generateMajorityCoalitions :: "party list \<Rightarrow> string option \<Rightarrow> party list list option" where
  "generateMajorityCoalitions parties requiredPartyName =
     (let requiredParties =
            (if truthy requiredPartyName
             then filter (\<lambda>p. Some (name p) = requiredPartyName) parties
             else [])
      in if truthy requiredPartyName \<and> length requiredParties = 0 then Some []
         else
           let availableParties =
                 (if truthy requiredPartyName
                  then filter (\<lambda>p. Some (name p) \<noteq> requiredPartyName) parties
                  else parties);
               maxSize = min (5 - int (length requiredParties)) (int (length availableParties))
           in fold (sizeStep requiredParties availableParties) [1 ..< Suc (nat maxSize)] (Some []))"

subsection \<open>calculateCoalitionAgreement\<close>

text \<open>
  \<^verbatim>\<open>coalition.map(party => ({party: party.name, stance: statement.positions[party.name],
  seats: party.seats}))\<close>: one triple per coalition party.
\<close>

definition stances :: "statement \<Rightarrow> party list \<Rightarrow> (string \<times> int option \<times> int) list" where
  "stances st c = map (\<lambda>p. (name p, positions st (name p), party.seats p)) c"

text \<open>
  The body of \<^verbatim>\<open>stances.forEach\<close>: the chain of strict comparisons of \<^verbatim>\<open>s.stance\<close> with
  \<open>1\<close>, \<open>0\<close> and \<open>-1\<close>, on the triple (agreeSeats, neutralSeats, disagreeSeats). A stance
  that is none of the three changes nothing.
\<close>

fun countStance :: "string \<times> int option \<times> int \<Rightarrow> int \<times> int \<times> int \<Rightarrow> int \<times> int \<times> int" where
  "countStance (pn, stance, s) (agreeSeats, neutralSeats, disagreeSeats) =
     (if stance = Some 1 then (agreeSeats + s, neutralSeats, disagreeSeats)
      else if stance = Some 0 then (agreeSeats, neutralSeats + s, disagreeSeats)
      else if stance = Some (- 1) then (agreeSeats, neutralSeats, disagreeSeats + s)
      else (agreeSeats, neutralSeats, disagreeSeats))"

definition seatsByStance :: "statement \<Rightarrow> party list \<Rightarrow> int \<times> int \<times> int" where
  "seatsByStance st c = fold countStance (stances st c) (0, 0, 0)"

definition totalSeats :: "statement \<Rightarrow> party list \<Rightarrow> int" where
  "totalSeats st c =
     (case seatsByStance st c of (agreeSeats, neutralSeats, disagreeSeats) \<Rightarrow>
        agreeSeats + neutralSeats + disagreeSeats)"

definition maxSeats :: "statement \<Rightarrow> party list \<Rightarrow> int" where
  "maxSeats st c =
     (case seatsByStance st c of (agreeSeats, neutralSeats, disagreeSeats) \<Rightarrow>
        max agreeSeats (max neutralSeats disagreeSeats))"

text \<open>\<^verbatim>\<open>maxSeats / totalSeats\<close>, a floating-point division.\<close>

definition majorityFraction :: "statement \<Rightarrow> party list \<Rightarrow> jsnum" where
  "majorityFraction st c =
     js_div (Num (of_int (maxSeats st c))) (Num (of_int (totalSeats st c)))"

text \<open>
  The body of \<^verbatim>\<open>statements.forEach\<close> on the running \<^verbatim>\<open>totalAgreementScore\<close>: a statement
  whose \<^verbatim>\<open>totalSeats\<close> is \<open>0\<close> returns early and adds nothing; otherwise
  \<^verbatim>\<open>Math.max(0, (majorityFraction - 0.5) / 0.5)\<close> is added.
\<close>

definition statementStep :: "party list \<Rightarrow> statement \<Rightarrow> jsnum \<Rightarrow> jsnum" where
  "statementStep c st totalAgreementScore =
     (if totalSeats st c = 0 then totalAgreementScore
      else
        let agreementScore =
              js_max0 (js_div (js_sub (majorityFraction st c) (Num (1 / 2))) (Num (1 / 2)))
        in js_add totalAgreementScore agreementScore)"

definition totalAgreementScore :: "statement list \<Rightarrow> party list \<Rightarrow> jsnum" where
  "totalAgreementScore statements c = fold (statementStep c) statements (Num 0)"

text \<open>\<^verbatim>\<open>totalAgreementScore / totalStatements\<close>, the unrounded local \<^verbatim>\<open>averageAgreement\<close>.\<close>

definition averageAgreementRaw :: "statement list \<Rightarrow> party list \<Rightarrow> jsnum" where
  "averageAgreementRaw statements c =
     js_div (totalAgreementScore statements c) (Num (of_nat (length statements)))"

text \<open>
  \<^verbatim>\<open>Math.max(0, (coalition.length - 2) * 0.05)\<close>; the literal \<^verbatim>\<open>0.05\<close> is the double
  nearest to \<open>5/100\<close>.
\<close>

definition sizePenalty :: "party list \<Rightarrow> jsnum" where
  "sizePenalty c = js_max0 (js_mul (Num (of_nat (length c) - 2)) (fl (5 / 100)))"

text \<open>\<^verbatim>\<open>Math.max(0, averageAgreement - sizePenalty)\<close>, the unrounded local.\<close>

definition adjustedAgreementRaw :: "statement list \<Rightarrow> party list \<Rightarrow> jsnum" where
  "adjustedAgreementRaw statements c =
     js_max0 (js_sub (averageAgreementRaw statements c) (sizePenalty c))"

definition calculateCoalitionAgreement :: "statement list \<Rightarrow> party list \<Rightarrow> score" where
  "calculateCoalitionAgreement statements c =
     (let rate = js_mul (adjustedAgreementRaw statements c) (Num 100)
      in \<lparr> agreementRate = js_div (js_round (js_mul rate (Num 10))) (Num 10),
           averageAgreement =
             js_div (js_round (js_mul (averageAgreementRaw statements c) (Num 1000))) (Num 1000),
           adjustedAgreement =
             js_div (js_round (js_mul (adjustedAgreementRaw statements c) (Num 1000))) (Num 1000),
           coalitionSize = length c,
           totalStatements = length statements,
           seats = coalitionSeats c \<rparr>)"

subsection \<open>findBestCoalitions\<close>

text \<open>The comparison function \<^verbatim>\<open>(a, b) => b.score.agreementRate - a.score.agreementRate\<close>.\<close>

definition compareFn :: "scored \<Rightarrow> scored \<Rightarrow> jsnum" where
  "compareFn a b = js_sub (agreementRate (score b)) (agreementRate (score a))"

text \<open>
  \<^verbatim>\<open>Array.prototype.sort\<close> with a comparison function is a stable sort: \<open>a\<close> comes before
  \<open>b\<close> when the comparison is negative, after it when positive, and an outcome of \<open>0\<close> or
  NaN keeps the two in their order. The result is computed by stable insertion: an element
  goes behind exactly the elements that the comparison puts strictly before it.
\<close>

fun insertSorted :: "('a \<Rightarrow> 'a \<Rightarrow> jsnum) \<Rightarrow> 'a \<Rightarrow> 'a list \<Rightarrow> 'a list" where
  "insertSorted cmp x [] = [x]"
| "insertSorted cmp x (y # ys) =
     (if js_lt (cmp y x) (Num 0) then y # insertSorted cmp x ys else x # y # ys)"

definition arraySort :: "('a \<Rightarrow> 'a \<Rightarrow> jsnum) \<Rightarrow> 'a list \<Rightarrow> 'a list" where
  "arraySort cmp xs = foldr (insertSorted cmp) xs []"

text \<open>\<^verbatim>\<open>coalitions.map(coalition => ({coalition, score}))\<close>.\<close>

definition scoreAll :: "statement list \<Rightarrow> party list list \<Rightarrow> scored list" where
  "scoreAll statements coalitions =
     map (\<lambda>c. \<lparr> coalition = c, score = calculateCoalitionAgreement statements c \<rparr>) coalitions"

text \<open>
  \<open>findBestCoalitions\<close>: the dropdown value is passed on as it is (the empty string when no
  party is chosen); the result is \<^verbatim>\<open>scoredCoalitions.slice(0, 5)\<close>.
\<close>

definition findBestCoalitions :: "party list \<Rightarrow> statement list \<Rightarrow> string \<Rightarrow> scored list option" where
  "findBestCoalitions parties statements requiredParty =
     (case generateMajorityCoalitions parties (Some requiredParty) of
        None \<Rightarrow> None
      | Some coalitions \<Rightarrow>
          Some (take 5 (arraySort compareFn (scoreAll statements coalitions))))"

subsection \<open>Notions used in the statements and proofs\<close>

text \<open>
  The sublists of \<open>xs\<close> with exactly \<open>k\<close> elements, in the order in which the library
  function \<open>subseqs\<close> lists them. It is the reference against which \<open>getCombinations\<close> is
  compared.
\<close>

definition ksubs :: "'a list \<Rightarrow> nat \<Rightarrow> 'a list list" where
  "ksubs xs k = filter (\<lambda>ys. length ys = k) (subseqs xs)"

text \<open>The locals \<^verbatim>\<open>requiredParties\<close> and \<^verbatim>\<open>availableParties\<close> of \<open>generateMajorityCoalitions\<close>.\<close>

definition requiredOf :: "party list \<Rightarrow> string option \<Rightarrow> party list" where
  "requiredOf ps r = (if truthy r then filter (\<lambda>p. Some (name p) = r) ps else [])"

definition availableOf :: "party list \<Rightarrow> string option \<Rightarrow> party list" where
  "availableOf ps r = (if truthy r then filter (\<lambda>p. Some (name p) \<noteq> r) ps else ps)"

text \<open>
  The parts of \<open>fl\<close> for a positive argument: the exponent used, the rounded significand
  and the rounded magnitude before the overflow test.
\<close>

definition expo :: "rat \<Rightarrow> int" where
  "expo x = max (ilog2 x) (- 1022)"

definition mant :: "rat \<Rightarrow> int" where
  "mant x = rne (x / 2 powi (expo x - 52))"

definition roundPos :: "rat \<Rightarrow> rat" where
  "roundPos x = of_int (mant x) * 2 powi (expo x - 52)"

text \<open>Every finite double is an integer multiple of the smallest subnormal.\<close>

definition gridUnit :: rat where
  "gridUnit = 2 powi (- 1074)"

definition onGrid :: "rat \<Rightarrow> bool" where
  "onGrid y \<longleftrightarrow> (\<exists>k::int. y = of_int k * gridUnit)"

subsection \<open>Example data\<close>

text \<open>The roster A = 76, B = 40, C = 34 seats and the statement with A and B for, C against.\<close>

definition partyA :: party where "partyA = \<lparr> name = ''A'', seats = 76 \<rparr>"
definition partyB :: party where "partyB = \<lparr> name = ''B'', seats = 40 \<rparr>"
definition partyC :: party where "partyC = \<lparr> name = ''C'', seats = 34 \<rparr>"

definition exampleRoster :: "party list" where
  "exampleRoster = [partyA, partyB, partyC]"

definition exampleStatement :: statement where
  "exampleStatement =
     \<lparr> text' = ''S1'', positions = [''A'' \<mapsto> 1, ''B'' \<mapsto> 1, ''C'' \<mapsto> - 1] \<rparr>"

definition partyD :: party where "partyD = \<lparr> name = ''D'', seats = 10 \<rparr>"

text \<open>Three parties of 40 seats each and a statement on which they take the three stances.\<close>

definition partyX :: party where "partyX = \<lparr> name = ''X'', seats = 40 \<rparr>"
definition partyY :: party where "partyY = \<lparr> name = ''Y'', seats = 40 \<rparr>"
definition partyZ :: party where "partyZ = \<lparr> name = ''Z'', seats = 40 \<rparr>"

definition splitStatement :: statement where
  "splitStatement =
     \<lparr> text' = ''S2'', positions = [''X'' \<mapsto> 1, ''Y'' \<mapsto> 0, ''Z'' \<mapsto> - 1] \<rparr>"

text \<open>A statement on which no party has a recorded stance, and one that all of A, B, C support.\<close>

definition blankStatement :: statement where
  "blankStatement = \<lparr> text' = ''S3'', positions = Map.empty \<rparr>"

definition agreeStatement :: statement where
  "agreeStatement =
     \<lparr> text' = ''S4'', positions = [''A'' \<mapsto> 1, ''B'' \<mapsto> 1, ''C'' \<mapsto> 1] \<rparr>"

text \<open>
  Parties of 51, 40, 5 and 45 seats and a statement that only P supports: the coalitions
  of P with S and of P with Q and R both have 51 of 96 seats on the majority side.
\<close>

definition partyP :: party where "partyP = \<lparr> name = ''P'', seats = 51 \<rparr>"
definition partyQ :: party where "partyQ = \<lparr> name = ''Q'', seats = 40 \<rparr>"
definition partyR :: party where "partyR = \<lparr> name = ''R'', seats = 5 \<rparr>"
definition partyS :: party where "partyS = \<lparr> name = ''S'', seats = 45 \<rparr>"

definition narrowStatement :: statement where
  "narrowStatement =
     \<lparr> text' = ''S5'',
       positions = [''P'' \<mapsto> 1, ''Q'' \<mapsto> - 1, ''R'' \<mapsto> - 1, ''S'' \<mapsto> - 1] \<rparr>"

subsection \<open>The scoring formula as the specification words it\<close>

text \<open>
  These definitions follow the specification's description of the continuous-weighted
  score, not the code: seat totals per stance as sums over the coalition; the majority
  fraction; the statement agreement; the sum, in statement order, over the statements on
  which the coalition has a recorded stance, divided by the count of all statements; the
  size penalty; the clamp at 0, the factor 100 and the rounding to one decimal. The
  arithmetic is that of JavaScript numbers. They are compared with
  \<open>calculateCoalitionAgreement\<close>.
\<close>

definition specBucket :: "int \<Rightarrow> statement \<Rightarrow> party list \<Rightarrow> int" where
  "specBucket v st c =
     sum_list (map party.seats (filter (\<lambda>p. positions st (name p) = Some v) c))"

definition specTotal :: "statement \<Rightarrow> party list \<Rightarrow> int" where
  "specTotal st c = specBucket 1 st c + specBucket 0 st c + specBucket (- 1) st c"

definition specMajorityFraction :: "statement \<Rightarrow> party list \<Rightarrow> jsnum" where
  "specMajorityFraction st c =
     js_div (Num (of_int (max (specBucket 1 st c) (max (specBucket 0 st c) (specBucket (- 1) st c)))))
            (Num (of_int (specTotal st c)))"

definition specStatementAgreement :: "statement \<Rightarrow> party list \<Rightarrow> jsnum" where
  "specStatementAgreement st c =
     js_max0 (js_div (js_sub (specMajorityFraction st c) (Num (1 / 2))) (Num (1 / 2)))"

definition specAverageAgreement :: "statement list \<Rightarrow> party list \<Rightarrow> jsnum" where
  "specAverageAgreement sts c =
     js_div (foldl js_add (Num 0)
               (map (\<lambda>st. specStatementAgreement st c)
                  (filter (\<lambda>st. specTotal st c \<noteq> 0) sts)))
            (Num (of_nat (length sts)))"

definition specPenalty :: "party list \<Rightarrow> jsnum" where
  "specPenalty c = js_max0 (js_mul (Num (of_nat (length c) - 2)) (fl (5 / 100)))"

definition roundTo1 :: "jsnum \<Rightarrow> jsnum" where
  "roundTo1 x = js_div (js_round (js_mul x (Num 10))) (Num 10)"

definition specAgreementRate :: "statement list \<Rightarrow> party list \<Rightarrow> jsnum" where
  "specAgreementRate sts c =
     roundTo1 (js_mul (js_max0 (js_sub (specAverageAgreement sts c) (specPenalty c))) (Num 100))"

text \<open>The ranking key of a scored coalition.\<close>

abbreviation rateOf :: "scored \<Rightarrow> jsnum" where
  "rateOf s \<equiv> agreementRate (score s)"

section \<open>Properties\<close>

subsection \<open>getCombinations lists the k-element sublists\<close>

lemma pushTails_eq: "pushTails h tcs acc = acc @ map (Cons h) tcs"
  unfolding pushTails_def by (induction tcs arbitrary: acc) auto

text \<open>The loop over \<open>i\<close>, once every recursive call is known to return.\<close>

lemma outer_loop:
  "(\<And>i. i \<in> set is \<Longrightarrow> getCombinations (drop (i + 1) arr) k = Some (g i)) \<Longrightarrow>
   fold (\<lambda>i acc. case acc of None \<Rightarrow> None
            | Some combinations \<Rightarrow>
                (case getCombinations (drop (i + 1) arr) k of
                   None \<Rightarrow> None
                 | Some tailCombos \<Rightarrow> Some (pushTails (arr ! i) tailCombos combinations)))
      is (Some acc)
   = Some (acc @ concat (map (\<lambda>i. map (Cons (arr ! i)) (g i)) is))"
  by (induction "is" arbitrary: acc) (auto simp: pushTails_eq)

lemma ksubs_0: "ksubs xs 0 = [[]]"
  unfolding ksubs_def by (induction xs) (auto simp: Let_def filter_map o_def)

lemma ksubs_Cons: "ksubs (x # xs) (Suc k) = map (Cons x) (ksubs xs k) @ ksubs xs (Suc k)"
  by (simp add: ksubs_def Let_def filter_map o_def)

lemma ksubs_Nil: "ksubs [] (Suc k) = []"
  by (simp add: ksubs_def)

lemma ksubs_1: "ksubs xs (Suc 0) = map (\<lambda>x. [x]) xs"
  by (induction xs) (simp_all add: ksubs_Nil ksubs_Cons ksubs_0)

lemma length_le_subseqs: "ys \<in> set (subseqs xs) \<Longrightarrow> length ys \<le> length xs"
  by (induction xs arbitrary: ys) (auto simp: Let_def le_SucI)

lemma ksubs_too_long: "length xs < k \<Longrightarrow> ksubs xs k = []"
  unfolding ksubs_def using length_le_subseqs by (fastforce simp: filter_empty_conv)

text \<open>
  The loop picks the first element \<open>arr[i]\<close> of a combination and completes it from the
  elements behind it: the same split as taking or skipping the head of the list.
\<close>

lemma loop_ksubs:
  "concat (map (\<lambda>i. map (Cons (arr ! i)) (ksubs (drop (i + 1) arr) (Suc n)))
             [0 ..< length arr - Suc n])
   = ksubs arr (Suc (Suc n))"
proof (induction arr)
  case Nil
  show ?case by (simp add: ksubs_Nil)
next
  case (Cons x xs)
  show ?case
  proof (cases "length xs \<le> n")
    case True
    then show ?thesis by (simp add: ksubs_Cons ksubs_too_long)
  next
    case False
    then have len: "length (x # xs) - Suc n = Suc (length xs - Suc n)" by simp
    have upt: "[0 ..< Suc (length xs - Suc n)] = 0 # map Suc [0 ..< length xs - Suc n]"
      by (simp add: upt_conv_Cons map_Suc_upt del: upt_Suc)
    show ?thesis
      unfolding len upt using Cons.IH by (simp add: ksubs_Cons o_def)
  qed
qed

lemma getCombinations_ksubs: "getCombinations arr (Suc n) = Some (ksubs arr (Suc n))"
proof (induction n arbitrary: arr)
  case 0
  show ?case by (simp add: ksubs_1)
next
  case (Suc n)
  have "getCombinations arr (Suc (Suc n)) =
          Some ([] @ concat (map (\<lambda>i. map (Cons (arr ! i)) (ksubs (drop (i + 1) arr) (Suc n)))
                              [0 ..< Suc (length arr) - Suc (Suc n)]))"
    unfolding getCombinations.simps by (rule outer_loop) (rule Suc.IH)
  then show ?case using loop_ksubs[of arr n] by simp
qed

lemma set_ksubs:
  assumes "distinct xs"
  shows "set ` set (ksubs xs k) = {B. B \<subseteq> set xs \<and> card B = k}"
proof (intro set_eqI iffI)
  fix B assume "B \<in> set ` set (ksubs xs k)"
  then obtain ys where ys: "ys \<in> set (subseqs xs)" "length ys = k" "B = set ys"
    by (auto simp: ksubs_def)
  from ys(1) assms have "distinct ys" by (rule subseqs_distinctD)
  moreover from ys(1) have "set ys \<in> Pow (set xs)" using subseqs_powset[of xs] by blast
  ultimately show "B \<in> {B. B \<subseteq> set xs \<and> card B = k}"
    using ys by (simp add: distinct_card)
next
  fix B assume "B \<in> {B. B \<subseteq> set xs \<and> card B = k}"
  then have B: "B \<subseteq> set xs" "card B = k" by auto
  then obtain ys where ys: "ys \<in> set (subseqs xs)" "B = set ys"
    using subset_subseqs[of B xs] by auto
  from ys(1) assms have "distinct ys" by (rule subseqs_distinctD)
  with B ys have "length ys = k" by (simp add: distinct_card)
  with ys show "B \<in> set ` set (ksubs xs k)" by (auto simp: ksubs_def)
qed

lemma distinct_ksubs: "distinct xs \<Longrightarrow> distinct (map set (ksubs xs k))"
  unfolding ksubs_def by (simp add: distinct_map_filter distinct_set_subseqs)

lemma length_ksubs:
  assumes "distinct xs"
  shows "length (ksubs xs k) = length xs choose k"
proof -
  have "length (ksubs xs k) = card (set (map set (ksubs xs k)))"
    using distinct_card[OF distinct_ksubs[OF assms, of k]] by simp
  also have "\<dots> = card {B. B \<subseteq> set xs \<and> card B = k}"
    using set_ksubs[OF assms, of k] by simp
  also have "\<dots> = card (set xs) choose k" by (simp add: n_subsets)
  also have "\<dots> = length xs choose k" using assms by (simp add: distinct_card)
  finally show ?thesis .
qed

lemma ksubs_elem: "distinct xs \<Longrightarrow> c \<in> set (ksubs xs k) \<Longrightarrow> distinct c \<and> length c = k"
  unfolding ksubs_def using subseqs_distinctD by auto

text \<open>
  Claim C2. For an array \<open>arr\<close> of distinct items and every \<open>k \<ge> 1\<close> (in particular
  \<open>1 \<le> k \<le> n\<close>), \<open>getCombinations arr k\<close> returns, and what it returns has exactly
  \<open>C(n, k)\<close> entries, no two of which are the same subset, and the subsets listed are
  exactly the \<open>k\<close>-element subsets of the items; every entry has \<open>k\<close> different items.
\<close>

theorem getCombinations_complete:
  assumes "distinct arr" and "1 \<le> k"
  shows "\<exists>cs. getCombinations arr k = Some cs
           \<and> length cs = length arr choose k
           \<and> distinct (map set cs)
           \<and> set ` set cs = {B. B \<subseteq> set arr \<and> card B = k}
           \<and> (\<forall>c\<in>set cs. distinct c \<and> length c = k)"
proof -
  from assms(2) obtain n where k: "k = Suc n" by (cases k) auto
  show ?thesis
    unfolding k getCombinations_ksubs
    using assms(1) by (simp add: length_ksubs distinct_ksubs set_ksubs ksubs_elem)
qed

theorem getCombinations_complete_witness:
  "distinct [1::nat, 2, 3, 4] \<and> (1::nat) \<le> 2 \<and>
   getCombinations [1::nat, 2, 3, 4] 2 = Some [[1, 2], [1, 3], [1, 4], [2, 3], [2, 4], [3, 4]] \<and>
   length [[1::nat, 2], [1, 3], [1, 4], [2, 3], [2, 4], [3, 4]] = length [1::nat, 2, 3, 4] choose 2"
proof -
  have d: "distinct [1::nat, 2, 3, 4]" by simp
  have k: "(1::nat) \<le> 2" by simp
  have e: "getCombinations [1::nat, 2, 3, 4] 2 = Some [[1, 2], [1, 3], [1, 4], [2, 3], [2, 4], [3, 4]]"
    by code_simp
  from getCombinations_complete[OF d k] show ?thesis unfolding e using d by auto
qed

subsection \<open>generateMajorityCoalitions\<close>

lemma comboStep_loop:
  "fold (comboStep req) combos acc =
     acc @ filter (\<lambda>c. 76 \<le> coalitionSeats c) (map ((@) req) combos)"
  by (induction combos arbitrary: acc) (auto simp: comboStep_def Let_def)

lemma sizeStep_loop:
  "\<forall>k\<in>set sizes. 1 \<le> k \<Longrightarrow>
   fold (sizeStep req avail) sizes (Some acc) =
     Some (acc @ concat (map (\<lambda>k. filter (\<lambda>c. 76 \<le> coalitionSeats c)
                                     (map ((@) req) (ksubs avail k))) sizes))"
proof (induction sizes arbitrary: acc)
  case Nil
  show ?case by simp
next
  case (Cons k ks)
  then obtain n where k: "k = Suc n" by (cases k) auto
  show ?case using Cons by (simp add: k sizeStep_def getCombinations_ksubs comboStep_loop)
qed

text \<open>
  The search always returns: the list of the candidates \<open>requiredParties @ combo\<close>, for the
  sizes \<open>1, ..., maxSize\<close> in turn, that reach 76 seats.
\<close>

lemma generateMajorityCoalitions_char:
  "generateMajorityCoalitions ps r =
     (if truthy r \<and> requiredOf ps r = [] then Some []
      else Some (concat (map (\<lambda>k. filter (\<lambda>c. 76 \<le> coalitionSeats c)
                                     (map ((@) (requiredOf ps r)) (ksubs (availableOf ps r) k)))
                  [1 ..< Suc (nat (min (5 - int (length (requiredOf ps r)))
                                       (int (length (availableOf ps r)))))])))"
proof -
  have sz: "\<forall>k\<in>set [1 ..< Suc m]. 1 \<le> k" for m by (simp del: upt_Suc)
  show ?thesis
    unfolding generateMajorityCoalitions_def Let_def
      requiredOf_def[symmetric] availableOf_def[symmetric]
    using sizeStep_loop[OF sz, of "requiredOf ps r" "availableOf ps r" _ "[]"]
    by (simp del: upt_Suc)
qed

lemma exampleRoster_search:
  "generateMajorityCoalitions exampleRoster None =
     Some [[partyA], [partyA, partyB], [partyA, partyC], [partyA, partyB, partyC]]"
  by code_simp

lemma exampleRoster_search_B:
  "generateMajorityCoalitions exampleRoster (Some ''B'') =
     Some [[partyB, partyA], [partyB, partyA, partyC]]"
  by code_simp

text \<open>
  Claim C1. \<open>generateMajorityCoalitions\<close> returns a list in which every coalition has at
  least 76 seats; a candidate whose seats sum to less than 76 is not in the list.
\<close>

theorem majority_filter:
  "\<exists>cs. generateMajorityCoalitions ps r = Some cs
        \<and> (\<forall>c\<in>set cs. 76 \<le> coalitionSeats c)
        \<and> (\<forall>c. coalitionSeats c < 76 \<longrightarrow> c \<notin> set cs)"
  unfolding generateMajorityCoalitions_char by (auto simp del: upt_Suc)

theorem majority_filter_witness:
  "generateMajorityCoalitions exampleRoster None =
     Some [[partyA], [partyA, partyB], [partyA, partyC], [partyA, partyB, partyC]]
   \<and> 76 \<le> coalitionSeats [partyA, partyC]
   \<and> coalitionSeats [partyB, partyC] < 76
   \<and> [partyB, partyC] \<notin> set [[partyA], [partyA, partyB], [partyA, partyC], [partyA, partyB, partyC]]"
proof -
  have s: "coalitionSeats [partyB, partyC] < 76"
    by (simp add: coalitionSeats_def partyB_def partyC_def)
  from majority_filter[of exampleRoster None] s show ?thesis
    unfolding exampleRoster_search by auto
qed

text \<open>
  Claim C3. For a given (non-empty) required name: when no roster party has that name the
  search returns the empty list, and so does not fail; when some roster party has it, every
  returned coalition contains every roster party of that name.
\<close>

theorem required_party:
  assumes "r \<noteq> []"
  shows "((\<forall>p\<in>set ps. name p \<noteq> r) \<longrightarrow> generateMajorityCoalitions ps (Some r) = Some [])
       \<and> ((\<exists>p\<in>set ps. name p = r) \<longrightarrow>
            (\<exists>cs. generateMajorityCoalitions ps (Some r) = Some cs
               \<and> (\<forall>c\<in>set cs. \<forall>p\<in>set ps. name p = r \<longrightarrow> p \<in> set c)))"
proof (intro conjI impI)
  assume "\<forall>p\<in>set ps. name p \<noteq> r"
  then have "requiredOf ps (Some r) = []"
    by (auto simp: requiredOf_def filter_empty_conv)
  with assms show "generateMajorityCoalitions ps (Some r) = Some []"
    by (simp add: generateMajorityCoalitions_char)
next
  assume "\<exists>p\<in>set ps. name p = r"
  then have ne: "requiredOf ps (Some r) \<noteq> []"
    using assms by (auto simp: requiredOf_def filter_empty_conv)
  have mem: "p \<in> set (requiredOf ps (Some r))" if "p \<in> set ps" "name p = r" for p
    using that assms by (simp add: requiredOf_def)
  show "\<exists>cs. generateMajorityCoalitions ps (Some r) = Some cs
               \<and> (\<forall>c\<in>set cs. \<forall>p\<in>set ps. name p = r \<longrightarrow> p \<in> set c)"
    unfolding generateMajorityCoalitions_char using ne mem by (auto simp del: upt_Suc)
qed

theorem required_party_witness:
  "generateMajorityCoalitions exampleRoster (Some ''D'') = Some []
   \<and> generateMajorityCoalitions exampleRoster (Some ''B'') =
       Some [[partyB, partyA], [partyB, partyA, partyC]]
   \<and> partyB \<in> set [partyB, partyA] \<and> partyB \<in> set [partyB, partyA, partyC]"
proof -
  have absent: "\<forall>p\<in>set exampleRoster. name p \<noteq> ''D''"
    by (simp add: exampleRoster_def partyA_def partyB_def partyC_def)
  have present: "\<exists>p\<in>set exampleRoster. name p = ''B''"
    by (simp add: exampleRoster_def partyA_def partyB_def partyC_def)
  have "generateMajorityCoalitions exampleRoster (Some ''D'') = Some []"
    using required_party[of "''D''" exampleRoster] absent by simp
  moreover have "\<exists>cs. generateMajorityCoalitions exampleRoster (Some ''B'') = Some cs
      \<and> (\<forall>c\<in>set cs. \<forall>p\<in>set exampleRoster. name p = ''B'' \<longrightarrow> p \<in> set c)"
    using required_party[of "''B''" exampleRoster] present by simp
  ultimately show ?thesis
    unfolding exampleRoster_search_B by simp
qed

text \<open>
  Claim C10. Without a required party (the argument is \<^verbatim>\<open>null\<close> or the empty string) the
  search starts with the subsets of size 1 of the whole roster: every roster party with at
  least 76 seats is returned as a coalition of its own.
\<close>

theorem single_party_majority:
  assumes "\<not> truthy r" and "p \<in> set ps" and "76 \<le> party.seats p"
  shows "\<exists>cs. generateMajorityCoalitions ps r = Some cs \<and> [p] \<in> set cs"
proof -
  let ?F = "\<lambda>k. filter (\<lambda>c. 76 \<le> coalitionSeats c)
                  (map ((@) (requiredOf ps r)) (ksubs (availableOf ps r) k))"
  let ?sizes = "[1 ..< Suc (nat (min (5 - int (length (requiredOf ps r)))
                                     (int (length (availableOf ps r)))))]"
  from assms(2) have "ps \<noteq> []" by auto
  then have one: "1 \<in> set ?sizes"
    using assms(1) by (simp add: requiredOf_def availableOf_def del: upt_Suc)
  have "[p] \<in> set (?F 1)"
    using assms by (simp add: requiredOf_def availableOf_def ksubs_1 coalitionSeats_def)
  with one have "[p] \<in> set (concat (map ?F ?sizes))"
    unfolding set_concat set_map by blast
  moreover have "generateMajorityCoalitions ps r = Some (concat (map ?F ?sizes))"
    unfolding generateMajorityCoalitions_char using assms(1) by (simp only: simp_thms if_False)
  ultimately show ?thesis by blast
qed

theorem single_party_majority_witness:
  "\<not> truthy (Some []) \<and> partyA \<in> set exampleRoster \<and> 76 \<le> party.seats partyA
   \<and> (\<exists>cs. generateMajorityCoalitions exampleRoster (Some []) = Some cs \<and> [partyA] \<in> set cs)"
proof -
  have t: "\<not> truthy (Some [])" by simp
  have m: "partyA \<in> set exampleRoster" by (simp add: exampleRoster_def)
  have s: "76 \<le> party.seats partyA" by (simp add: partyA_def)
  from single_party_majority[OF t m s] t m s show ?thesis by simp
qed

lemma generateMajorityCoalitions_returns: "\<exists>cs. generateMajorityCoalitions ps r = Some cs"
  by (simp add: generateMajorityCoalitions_char)

subsection \<open>Rounding to a double\<close>

lemma pow2_eq: "pow2 e = 2 powi e"
  by (simp add: pow2_def power_int_def inverse_eq_divide power_one_over)

lemma pow2_pos: "(0::rat) < 2 powi e" by simp

lemma pow2_add: "(2::rat) powi (a + b) = 2 powi a * 2 powi b"
  by (simp add: power_int_add)

lemma pow2_diff: "(2::rat) powi (a - b) = 2 powi a / 2 powi b"
  by (simp add: power_int_diff)

lemma pow2_mono: "a \<le> b \<Longrightarrow> (2::rat) powi a \<le> 2 powi b"
  by (rule power_int_increasing) simp_all

lemma pow2_strict_mono: "a < b \<Longrightarrow> (2::rat) powi a < 2 powi b"
  by (rule power_int_strict_increasing) simp_all

lemma pow2_less_cancel: "(2::rat) powi a < 2 powi b \<Longrightarrow> a < b"
  using pow2_mono[of b a] by (cases "a < b") auto

lemma bitlen_rat_bounds:
  assumes "0 < (p::int)"
  shows "(2::rat) powi (bitlen p - 1) \<le> of_int p" and "(of_int p :: rat) < 2 powi (bitlen p)"
proof -
  from bitlen_bounds[OF assms] have b: "2 ^ nat (bitlen p - 1) \<le> p" "p < 2 ^ nat (bitlen p)"
    by auto
  from assms have ge1: "1 \<le> bitlen p" using bitlen_eq_zero_iff[of p] bitlen_nonneg[of p] by linarith
  have "(2::rat) powi (bitlen p - 1) = of_int (2 ^ nat (bitlen p - 1))"
    using ge1 by (simp add: power_int_def)
  also have "\<dots> \<le> of_int p" using b(1) by (simp only: of_int_le_iff)
  finally show "(2::rat) powi (bitlen p - 1) \<le> of_int p" .
  have "(of_int p :: rat) < of_int (2 ^ nat (bitlen p))" using b(2) by (simp only: of_int_less_iff)
  also have "\<dots> = 2 powi (bitlen p)" using ge1 by (simp add: power_int_def)
  finally show "(of_int p :: rat) < 2 powi (bitlen p)" .
qed

lemma ilog2_bounds:
  assumes "0 < x"
  shows "2 powi (ilog2 x) \<le> x" and "x < 2 powi (ilog2 x + 1)"
proof -
  obtain p q where pq: "quotient_of x = (p, q)" by (cases "quotient_of x") auto
  then have q: "0 < q" and x: "x = of_int p / of_int q"
    using quotient_of_denom_pos[OF pq] quotient_of_div[OF pq] by auto
  from assms x q have p: "0 < p" by (simp add: zero_less_divide_iff)
  define d where "d = bitlen p - bitlen q"
  have qpos: "(0::rat) < of_int q" using q by simp
  have up: "x < 2 powi (d + 1)"
  proof -
    have "x < 2 powi (bitlen p) / of_int q"
      unfolding x using bitlen_rat_bounds(2)[OF p] qpos by (simp add: divide_strict_right_mono)
    also have "\<dots> \<le> 2 powi (bitlen p) / 2 powi (bitlen q - 1)"
    proof (rule divide_left_mono)
      show "2 powi (bitlen q - 1) \<le> rat_of_int q" by (rule bitlen_rat_bounds(1)[OF q])
      show "(0::rat) \<le> 2 powi bitlen p" by simp
      show "0 < rat_of_int q * 2 powi (bitlen q - 1)" by (intro mult_pos_pos qpos pow2_pos)
    qed
    also have "\<dots> = 2 powi (d + 1)" unfolding d_def by (simp flip: pow2_diff) (simp add: algebra_simps)
    finally show ?thesis .
  qed
  have lo: "2 powi (d - 1) \<le> x"
  proof -
    have "(2::rat) powi (d - 1) = 2 powi (bitlen p - 1) / 2 powi (bitlen q)"
      unfolding d_def by (simp flip: pow2_diff) (simp add: algebra_simps)
    also have "\<dots> \<le> of_int p / 2 powi (bitlen q)"
      using bitlen_rat_bounds(1)[OF p] by (simp add: divide_right_mono)
    also have "\<dots> \<le> of_int p / of_int q"
    proof (rule divide_left_mono)
      show "rat_of_int q \<le> 2 powi bitlen q" using bitlen_rat_bounds(2)[OF q] by simp
      show "0 \<le> rat_of_int p" using p by simp
      show "0 < 2 powi bitlen q * rat_of_int q" by (intro mult_pos_pos qpos pow2_pos)
    qed
    finally show ?thesis unfolding x .
  qed
  have il: "ilog2 x = (if 2 powi d \<le> x then d else d - 1)"
    by (simp add: ilog2_def pq d_def Let_def pow2_eq)
  show "2 powi (ilog2 x) \<le> x" unfolding il using lo by simp
  show "x < 2 powi (ilog2 x + 1)" unfolding il using up by (simp add: not_le)
qed

lemma ilog2_unique:
  assumes "0 < x" and "2 powi e \<le> x" and "x < 2 powi (e + 1)"
  shows "ilog2 x = e"
proof -
  from ilog2_bounds[OF assms(1)] assms(2,3)
  have "(2::rat) powi e < 2 powi (ilog2 x + 1)" "(2::rat) powi (ilog2 x) < 2 powi (e + 1)" by auto
  then have "e < ilog2 x + 1" "ilog2 x < e + 1" by (auto dest: pow2_less_cancel)
  then show ?thesis by simp
qed

lemma ilog2_mono:
  assumes "0 < x" and "x \<le> y"
  shows "ilog2 x \<le> ilog2 y"
proof -
  from assms have y: "0 < y" by simp
  from ilog2_bounds(1)[OF assms(1)] assms(2) ilog2_bounds(2)[OF y]
  have "(2::rat) powi (ilog2 x) < 2 powi (ilog2 y + 1)" by simp
  then show ?thesis by (auto dest: pow2_less_cancel)
qed

lemma rne_bounds: "of_int (rne y) - y \<le> 1 / 2" "y - of_int (rne y) \<le> 1 / 2"
  unfolding rne_def Let_def by (auto simp: not_less) linarith+

lemma rne_of_int: "rne (of_int k) = k"
  by (simp add: rne_def)

lemma rne_mono:
  assumes "a \<le> b"
  shows "rne a \<le> rne b"
proof (rule ccontr)
  assume "\<not> rne a \<le> rne b"
  then have "rne b + 1 \<le> rne a" by simp
  then have "(of_int (rne b) :: rat) + 1 \<le> of_int (rne a)"
    by (metis of_int_1 of_int_add of_int_le_iff)
  with rne_bounds(1)[of a] rne_bounds(2)[of b] assms have ab: "a = b" by linarith
  with \<open>\<not> rne a \<le> rne b\<close> show False by simp
qed

lemma rne_ge: "of_int k \<le> y \<Longrightarrow> k \<le> rne y"
  using rne_mono[of "of_int k" y] by (simp add: rne_of_int)

lemma rne_le: "y \<le> of_int k \<Longrightarrow> rne y \<le> k"
  using rne_mono[of y "of_int k"] by (simp add: rne_of_int)

lemma roundPos_alt: "roundPos x = of_int (mant x) * 2 powi (expo x - 52)"
  by (rule roundPos_def)

lemma expo_upper: "0 < x \<Longrightarrow> x < 2 powi (expo x + 1)"
proof -
  assume x: "0 < x"
  have "x < 2 powi (ilog2 x + 1)" by (rule ilog2_bounds(2)[OF x])
  also have "\<dots> \<le> 2 powi (expo x + 1)" by (rule pow2_mono) (simp add: expo_def)
  finally show ?thesis .
qed

lemma expo_mono: "0 < x \<Longrightarrow> x \<le> y \<Longrightarrow> expo x \<le> expo y"
  unfolding expo_def using ilog2_mono[of x y] by simp

lemma scale_53: "(2::rat) powi (e + 1) / 2 powi (e - 52) = of_int (2 ^ 53)"
proof -
  have "(2::rat) powi (e + 1) / 2 powi (e - 52) = 2 powi ((e + 1) - (e - 52))"
    by (simp only: pow2_diff)
  also have "\<dots> = 2 powi 53" by simp
  also have "\<dots> = of_int (2 ^ 53)" by simp
  finally show ?thesis .
qed

lemma scale_52: "(2::rat) powi e / 2 powi (e - 52) = of_int (2 ^ 52)"
proof -
  have "(2::rat) powi e / 2 powi (e - 52) = 2 powi (e - (e - 52))"
    by (simp only: pow2_diff)
  also have "\<dots> = 2 powi 52" by simp
  also have "\<dots> = of_int (2 ^ 52)" by simp
  finally show ?thesis .
qed

lemma mant_upper: assumes "0 < x" shows "mant x \<le> 2 ^ 53"
proof -
  have "x / 2 powi (expo x - 52) \<le> 2 powi (expo x + 1) / 2 powi (expo x - 52)"
    using expo_upper[OF assms] by (intro divide_right_mono) simp_all
  then have "x / 2 powi (expo x - 52) \<le> of_int (2 ^ 53)" by (simp only: scale_53)
  then show ?thesis unfolding mant_def by (rule rne_le)
qed

lemma mant_nonneg: assumes "0 < x" shows "0 \<le> mant x"
proof -
  have "of_int 0 \<le> x / 2 powi (expo x - 52)" using assms by simp
  then show ?thesis unfolding mant_def by (rule rne_ge)
qed

lemma mant_lower: assumes "0 < x" and "- 1022 \<le> ilog2 x" shows "2 ^ 52 \<le> mant x"
proof -
  from assms(2) have e: "expo x = ilog2 x" by (simp add: expo_def)
  have "2 powi (expo x) / 2 powi (expo x - 52) \<le> x / 2 powi (expo x - 52)"
    using ilog2_bounds(1)[OF assms(1)] unfolding e by (intro divide_right_mono) simp_all
  then have "of_int (2 ^ 52) \<le> x / 2 powi (expo x - 52)" by (simp only: scale_52)
  then show ?thesis unfolding mant_def by (rule rne_ge)
qed

lemma pow2_split_53: "of_int (2 ^ 53) * (2::rat) powi (e - 52) = 2 powi (e + 1)"
  using scale_53[of e] by (simp add: field_simps)

lemma pow2_split_52: "of_int (2 ^ 52) * (2::rat) powi (e - 52) = 2 powi e"
  using scale_52[of e] by (simp add: field_simps)

lemma roundPos_upper: assumes "0 < x" shows "roundPos x \<le> 2 powi (expo x + 1)"
proof -
  have "(of_int (mant x) :: rat) \<le> of_int (2 ^ 53)"
    using mant_upper[OF assms] by (simp only: of_int_le_iff)
  then have "roundPos x \<le> of_int (2 ^ 53) * 2 powi (expo x - 52)"
    unfolding roundPos_alt by (intro mult_right_mono) simp_all
  then show ?thesis by (simp only: pow2_split_53)
qed

lemma roundPos_lower:
  assumes "0 < x" and "- 1022 \<le> ilog2 x" shows "2 powi (expo x) \<le> roundPos x"
proof -
  have "(of_int (2 ^ 52) :: rat) \<le> of_int (mant x)"
    using mant_lower[OF assms] by (simp only: of_int_le_iff)
  then have "of_int (2 ^ 52) * 2 powi (expo x - 52) \<le> roundPos x"
    unfolding roundPos_alt by (intro mult_right_mono) simp_all
  then show ?thesis by (simp only: pow2_split_52)
qed

lemma roundPos_nonneg: assumes "0 < x" shows "0 \<le> roundPos x"
  unfolding roundPos_alt using mant_nonneg[OF assms] by simp

lemma roundPos_mono:
  assumes "0 < x" and "x \<le> y"
  shows "roundPos x \<le> roundPos y"
proof -
  from assms have y: "0 < y" by simp
  from expo_mono[OF assms] consider "expo x = expo y" | "expo x < expo y" by linarith
  then show ?thesis
  proof cases
    case 1
    have "x / 2 powi (expo y - 52) \<le> y / 2 powi (expo y - 52)"
      using assms(2) by (intro divide_right_mono) simp_all
    then have "mant x \<le> mant y" unfolding mant_def 1 by (rule rne_mono)
    then have "(of_int (mant x) :: rat) \<le> of_int (mant y)" by (simp only: of_int_le_iff)
    then show ?thesis unfolding roundPos_alt 1 by (intro mult_right_mono) simp_all
  next
    case 2
    then have n: "- 1022 \<le> ilog2 y" unfolding expo_def by linarith
    have "roundPos x \<le> 2 powi (expo x + 1)" by (rule roundPos_upper[OF assms(1)])
    also have "\<dots> \<le> 2 powi (expo y)" using 2 by (intro pow2_mono) simp
    also have "\<dots> \<le> roundPos y" by (rule roundPos_lower[OF y n])
    finally show ?thesis .
  qed
qed

lemma overflow_iff:
  assumes "0 < x"
  shows "(1024 \<le> expo x \<or> (expo x = 1023 \<and> mant x = 2 ^ 53)) \<longleftrightarrow> 2 powi 1024 \<le> roundPos x"
proof
  assume "1024 \<le> expo x \<or> (expo x = 1023 \<and> mant x = 2 ^ 53)"
  then show "2 powi 1024 \<le> roundPos x"
  proof
    assume e: "1024 \<le> expo x"
    then have n: "- 1022 \<le> ilog2 x" unfolding expo_def by linarith
    have "(2::rat) powi 1024 \<le> 2 powi (expo x)" using e by (intro pow2_mono)
    also have "\<dots> \<le> roundPos x" by (rule roundPos_lower[OF assms n])
    finally show ?thesis .
  next
    assume "expo x = 1023 \<and> mant x = 2 ^ 53"
    then have "roundPos x = of_int (2 ^ 53) * 2 powi (1023 - 52)" by (simp add: roundPos_alt)
    also have "\<dots> = 2 powi (1023 + 1)" by (rule pow2_split_53)
    finally show ?thesis by simp
  qed
next
  assume o: "2 powi 1024 \<le> roundPos x"
  show "1024 \<le> expo x \<or> (expo x = 1023 \<and> mant x = 2 ^ 53)"
  proof (rule ccontr)
    assume c: "\<not> (1024 \<le> expo x \<or> (expo x = 1023 \<and> mant x = 2 ^ 53))"
    then have le: "expo x \<le> 1023" by simp
    show False
    proof (cases "expo x = 1023")
      case True
      with c have "mant x \<noteq> 2 ^ 53" by simp
      with mant_upper[OF assms] have "mant x \<le> 2 ^ 53 - 1" by simp
      then have "(of_int (mant x) :: rat) \<le> of_int (2 ^ 53 - 1)" by (simp only: of_int_le_iff)
      then have "roundPos x \<le> of_int (2 ^ 53 - 1) * 2 powi (expo x - 52)"
        unfolding roundPos_alt by (intro mult_right_mono) simp_all
      also have "\<dots> = 2 powi (expo x + 1) - 2 powi (expo x - 52)"
        using pow2_split_53[of "expo x"] by (simp add: algebra_simps)
      also have "\<dots> < 2 powi (expo x + 1)" by simp
      also have "\<dots> = 2 powi 1024" using True by simp
      finally show False using o by simp
    next
      case False
      with le have "expo x + 1 \<le> 1023" by simp
      then have "(2::rat) powi (expo x + 1) < 2 powi 1024" by (intro pow2_strict_mono) simp
      with roundPos_upper[OF assms] o show False by simp
    qed
  qed
qed

lemma fl_alt:
  "fl x = (if x = 0 then Num 0
           else if 1024 \<le> expo \<bar>x\<bar> \<or> (expo \<bar>x\<bar> = 1023 \<and> mant \<bar>x\<bar> = 2 ^ 53)
                then (if 0 < x then PosInf else NegInf)
                else Num (sgn x * roundPos \<bar>x\<bar>))"
  by (simp only: fl_def Let_def expo_def mant_def roundPos_def pow2_eq)

lemma fl_pos:
  assumes "0 < x"
  shows "fl x = (if 2 powi 1024 \<le> roundPos x then PosInf else Num (roundPos x))"
proof -
  from assms have f: "x \<noteq> 0" "\<bar>x\<bar> = x" "sgn x = 1" by simp_all
  show ?thesis
    unfolding fl_alt by (simp only: f assms overflow_iff[OF assms] if_False if_True mult_1)
qed

lemma fl_neg:
  assumes "x < 0"
  shows "fl x = (if 2 powi 1024 \<le> roundPos (- x) then NegInf else Num (- roundPos (- x)))"
proof -
  from assms have f: "x \<noteq> 0" "\<bar>x\<bar> = - x" "sgn x = - 1" "\<not> 0 < x" and p: "0 < - x" by simp_all
  show ?thesis
    unfolding fl_alt by (simp only: f overflow_iff[OF p] if_False if_True) simp
qed

lemma fl_zero: "fl 0 = Num 0" by (simp add: fl_def)

lemma fl_not_NaN: "fl x \<noteq> NaN"
  by (cases "x = 0"; cases "0 < x") (auto simp: fl_zero fl_pos fl_neg not_less)

lemma fl_mono:
  assumes "x \<le> y"
  shows "js_le (fl x) (fl y)"
proof -
  consider "0 < x" | "x = 0" | "x < 0" by linarith
  then show ?thesis
  proof cases
    case 1
    with assms have y: "0 < y" by simp
    from roundPos_mono[OF 1 assms] show ?thesis
      by (auto simp: fl_pos[OF 1] fl_pos[OF y])
  next
    case 2
    show ?thesis
    proof (cases "y = 0")
      case True
      with 2 show ?thesis by (simp add: fl_zero)
    next
      case False
      with 2 assms have y: "0 < y" by simp
      from roundPos_nonneg[OF y] show ?thesis by (auto simp: 2 fl_zero fl_pos[OF y])
    qed
  next
    case 3
    then have nx: "0 < - x" by simp
    consider "y < 0" | "y = 0" | "0 < y" by linarith
    then show ?thesis
    proof cases
      case 1
      then have ny: "0 < - y" by simp
      from assms have "- y \<le> - x" by simp
      from roundPos_mono[OF ny this] show ?thesis
        by (auto simp: fl_neg[OF 3] fl_neg[OF 1])
    next
      case 2
      from roundPos_nonneg[OF nx] show ?thesis by (auto simp: 2 fl_zero fl_neg[OF 3])
    next
      case 3
      from roundPos_nonneg[OF nx] roundPos_nonneg[OF 3] show ?thesis
        by (auto simp: fl_neg[OF \<open>x < 0\<close>] fl_pos[OF 3])
    qed
  qed
qed

lemma js_le_trans: "js_le x y \<Longrightarrow> js_le y z \<Longrightarrow> js_le x z"
  by (cases x; cases y; cases z) auto

lemma js_le_refl: "x \<noteq> NaN \<Longrightarrow> js_le x x"
  by (cases x) auto

lemma js_le_not_lt: "js_le x y \<Longrightarrow> \<not> js_lt y x"
  by (cases x; cases y) auto

lemma fl_between:
  assumes "a \<le> x" and "x \<le> b" and "fl a = Num a'" and "fl b = Num b'"
  shows "\<exists>y. fl x = Num y \<and> a' \<le> y \<and> y \<le> b'"
proof -
  from fl_mono[OF assms(1)] fl_mono[OF assms(2)] show ?thesis
    unfolding assms(3,4) by (cases "fl x") auto
qed

lemma fl_nonneg: "0 \<le> x \<Longrightarrow> js_le (Num 0) (fl x)"
  using fl_mono[of 0 x] by (simp add: fl_zero)

lemma fl_nonpos: "x \<le> 0 \<Longrightarrow> js_le (fl x) (Num 0)"
  using fl_mono[of x 0] by (simp add: fl_zero)

lemma gridUnit_pos: "0 < gridUnit" by (simp only: gridUnit_def pow2_pos)

lemma expo_ge: "- 1022 \<le> expo x" by (simp add: expo_def)

lemma quantum_grid: "(2::rat) powi (expo x - 52) = of_int (2 ^ nat (expo x + 1022)) * gridUnit"
proof -
  have "0 \<le> expo x + 1022" using expo_ge[of x] by simp
  then have p: "(2::rat) powi (expo x + 1022) = of_int (2 ^ nat (expo x + 1022))"
    by (simp add: power_int_def)
  have "expo x - 52 = (expo x + 1022) + (- 1074)" by simp
  then have "(2::rat) powi (expo x - 52) = 2 powi (expo x + 1022) * 2 powi (- 1074)"
    by (simp only: pow2_add)
  then show ?thesis by (simp only: p gridUnit_def)
qed

lemma roundPos_onGrid: "onGrid (roundPos x)"
proof -
  have "roundPos x = of_int (mant x * 2 ^ nat (expo x + 1022)) * gridUnit"
    unfolding roundPos_alt quantum_grid by simp
  then show ?thesis unfolding onGrid_def by blast
qed

lemma onGrid_uminus: "onGrid y \<Longrightarrow> onGrid (- y)"
  unfolding onGrid_def
proof -
  assume "\<exists>k::int. y = of_int k * gridUnit"
  then obtain k :: int where "y = of_int k * gridUnit" by blast
  then have "- y = of_int (- k) * gridUnit" by simp
  then show "\<exists>k::int. - y = of_int k * gridUnit" by blast
qed

lemma onGrid_0: "onGrid 0"
  unfolding onGrid_def by (rule exI[of _ 0]) simp

lemma fl_onGrid: "fl x = Num y \<Longrightarrow> onGrid y"
proof -
  assume a: "fl x = Num y"
  consider "0 < x" | "x = 0" | "x < 0" by linarith
  then show ?thesis
  proof cases
    case 1
    with a have "y = roundPos x" by (simp add: fl_pos split: if_splits)
    then show ?thesis by (simp add: roundPos_onGrid)
  next
    case 2
    with a show ?thesis by (simp add: fl_zero onGrid_0)
  next
    case 3
    with a have "y = - roundPos (- x)" by (simp add: fl_neg split: if_splits)
    then show ?thesis by (simp add: roundPos_onGrid onGrid_uminus)
  qed
qed

lemma onGrid_diff_ge:
  assumes "onGrid a" and "onGrid b" and "a < b"
  shows "gridUnit \<le> b - a"
proof -
  from assms(1,2) obtain k l :: int where
    k: "a = of_int k * gridUnit" and l: "b = of_int l * gridUnit"
    unfolding onGrid_def by blast
  from assms(3) gridUnit_pos have "(of_int k :: rat) < of_int l" unfolding k l by simp
  then have "k + 1 \<le> l" by simp
  then have "(of_int k :: rat) + 1 \<le> of_int l" by (metis of_int_1 of_int_add of_int_le_iff)
  then have "(1::rat) \<le> of_int l - of_int k" by simp
  then have "1 * gridUnit \<le> (of_int l - of_int k) * gridUnit"
    using gridUnit_pos by (intro mult_right_mono) simp_all
  then show ?thesis unfolding k l by (simp add: algebra_simps)
qed

lemma roundPos_pos:
  assumes "gridUnit \<le> x"
  shows "0 < roundPos x"
proof -
  have x: "0 < x" using assms gridUnit_pos by linarith
  have "2 powi (expo x - 52) \<le> x"
  proof (cases "- 1022 \<le> ilog2 x")
    case True
    then have e: "expo x = ilog2 x" by (simp add: expo_def)
    have "(2::rat) powi (expo x - 52) \<le> 2 powi (expo x)" by (intro pow2_mono) simp
    also have "\<dots> \<le> x" unfolding e by (rule ilog2_bounds(1)[OF x])
    finally show ?thesis .
  next
    case False
    then have "expo x - 52 = - 1074" by (simp add: expo_def)
    then show ?thesis using assms by (simp only: gridUnit_def)
  qed
  then have "of_int 1 \<le> x / 2 powi (expo x - 52)" by (simp add: pos_le_divide_eq)
  then have "1 \<le> mant x" unfolding mant_def by (rule rne_ge)
  then have "(0::rat) < of_int (mant x)" by simp
  then show ?thesis unfolding roundPos_alt by (intro mult_pos_pos) simp_all
qed

lemma fl_sign_diff:
  assumes "onGrid a" and "onGrid b"
  shows "js_lt (fl (b - a)) (Num 0) \<longleftrightarrow> b < a"
proof (cases "b < a")
  case True
  then have n: "b - a < 0" by simp
  from onGrid_diff_ge[OF assms(2,1) True] have "gridUnit \<le> - (b - a)" by simp
  from roundPos_pos[OF this] True show ?thesis by (simp add: fl_neg[OF n])
next
  case False
  then have "0 \<le> b - a" by simp
  from fl_nonneg[OF this] False show ?thesis by (cases "fl (b - a)") auto
qed

lemma pow2_le_cancel: "(2::rat) powi a \<le> 2 powi b \<Longrightarrow> a \<le> b"
  using pow2_strict_mono[of b a] by (cases "a \<le> b") auto

lemma pow2_half: "(2::rat) powi (j - 52) / 2 = 2 powi (j - 53)"
proof -
  have "(2::rat) powi (j - 52) = 2 powi ((j - 53) + 1)" by simp
  also have "\<dots> = 2 powi (j - 53) * 2" by (simp only: pow2_add) simp
  finally show ?thesis by simp
qed

lemma roundPos_error:
  assumes "0 < x" and "x \<le> 2 powi j" and "- 1022 \<le> j"
  shows "\<bar>roundPos x - x\<bar> \<le> 2 powi (j - 53)" and "roundPos x \<le> 2 powi (j + 1)"
proof -
  from ilog2_bounds(1)[OF assms(1)] assms(2) have "(2::rat) powi (ilog2 x) \<le> 2 powi j" by simp
  then have "ilog2 x \<le> j" by (rule pow2_le_cancel)
  with assms(3) have e: "expo x \<le> j" by (simp add: expo_def)
  define q :: rat where "q = 2 powi (expo x - 52)"
  have q: "0 < q" "q \<le> 2 powi (j - 52)" unfolding q_def using e by (simp_all add: pow2_mono)
  have "roundPos x - x = (of_int (mant x) - x / q) * q"
    unfolding roundPos_def q_def by (simp add: field_simps)
  then have "\<bar>roundPos x - x\<bar> = \<bar>of_int (mant x) - x / q\<bar> * q"
    using q(1) by (simp add: abs_mult)
  also have "\<dots> \<le> (1 / 2) * q"
  proof (rule mult_right_mono)
    show "\<bar>of_int (mant x) - x / q\<bar> \<le> 1 / 2"
      unfolding mant_def q_def using rne_bounds[of "x / 2 powi (expo x - 52)"] by linarith
    show "0 \<le> q" using q(1) by simp
  qed
  also have "\<dots> \<le> (1 / 2) * 2 powi (j - 52)" using q(2) by simp
  also have "\<dots> = 2 powi (j - 53)" using pow2_half[of j] by simp
  finally show "\<bar>roundPos x - x\<bar> \<le> 2 powi (j - 53)" .
  have "roundPos x \<le> 2 powi (expo x + 1)" by (rule roundPos_upper[OF assms(1)])
  also have "\<dots> \<le> 2 powi (j + 1)" using e by (intro pow2_mono) simp
  finally show "roundPos x \<le> 2 powi (j + 1)" .
qed

lemma fl_error:
  assumes "\<bar>x\<bar> \<le> 2 powi j" and "- 1022 \<le> j" and "j \<le> 1022"
  shows "\<exists>y. fl x = Num y \<and> \<bar>y - x\<bar> \<le> 2 powi (j - 53)"
proof -
  have lt: "(2::rat) powi (j + 1) < 2 powi 1024" using assms(3) by (intro pow2_strict_mono) simp
  consider "0 < x" | "x = 0" | "x < 0" by linarith
  then show ?thesis
  proof cases
    case 1
    with assms(1) have "x \<le> 2 powi j" by simp
    from roundPos_error[OF 1 this assms(2)] lt have
      "\<bar>roundPos x - x\<bar> \<le> 2 powi (j - 53)" "\<not> 2 powi 1024 \<le> roundPos x" by simp_all
    then show ?thesis by (simp only: fl_pos[OF 1] if_False) blast
  next
    case 2
    then show ?thesis by (simp add: fl_zero)
  next
    case 3
    then have p: "0 < - x" by simp
    from 3 assms(1) have "- x \<le> 2 powi j" by simp
    from roundPos_error[OF p this assms(2)] lt have
      "\<bar>roundPos (- x) - (- x)\<bar> \<le> 2 powi (j - 53)" "\<not> 2 powi 1024 \<le> roundPos (- x)" by simp_all
    moreover have "\<bar>- roundPos (- x) - x\<bar> = \<bar>roundPos (- x) - (- x)\<bar>" by (simp add: abs_minus_commute)
    ultimately show ?thesis by (simp only: fl_neg[OF 3] if_False) metis
  qed
qed

subsection \<open>Monotone operations\<close>

lemma js_max0_mono: "js_le x y \<Longrightarrow> js_le (js_max0 x) (js_max0 y)"
  by (cases x; cases y) auto

lemma js_round_mono: "js_le x y \<Longrightarrow> js_le (js_round x) (js_round y)"
  by (cases x; cases y) (auto intro: floor_mono)

lemma js_le_PosInf: "x \<noteq> NaN \<Longrightarrow> js_le x PosInf"
  by (cases x) auto

lemma js_le_NegInf: "y \<noteq> NaN \<Longrightarrow> js_le NegInf y"
  by (cases y) auto

lemma js_le_NaN: "js_le x y \<Longrightarrow> x \<noteq> NaN \<and> y \<noteq> NaN"
  by (cases x; cases y) auto

lemma js_mul_pos_mono:
  assumes "0 < c" and "js_le x y"
  shows "js_le (js_mul x (Num c)) (js_mul y (Num c))"
  using assms by (cases x; cases y) (auto simp: fl_mono fl_not_NaN js_le_PosInf js_le_NegInf)

lemma js_div_pos_mono:
  assumes "0 < c" and "js_le x y"
  shows "js_le (js_div x (Num c)) (js_div y (Num c))"
  using assms
  by (cases x; cases y)
     (auto simp: fl_mono fl_not_NaN js_le_PosInf js_le_NegInf divide_right_mono)

lemma js_sub_anti:
  assumes "js_le p1 p2"
  shows "js_le (js_sub (Num a) p2) (js_sub (Num a) p1)"
  using assms by (cases p1; cases p2) (auto simp: fl_mono fl_not_NaN js_le_PosInf js_le_NegInf)

lemma fl_005: "fl (5 / 100) = Num (3602879701896397 / 72057594037927936)"
  by code_simp

lemma sizePenalty_mono:
  assumes "length c1 \<le> length c2"
  shows "js_le (sizePenalty c1) (sizePenalty c2)"
proof -
  have "(of_nat (length c1) - 2) * (3602879701896397 / 72057594037927936 :: rat)
      \<le> (of_nat (length c2) - 2) * (3602879701896397 / 72057594037927936)"
    using assms by (intro mult_right_mono) simp_all
  then show ?thesis
    unfolding sizePenalty_def fl_005 by (intro js_max0_mono) (simp add: fl_mono)
qed

lemma rate_mono:
  assumes "js_le x y"
  shows "js_le (js_div (js_round (js_mul (js_mul (js_max0 x) (Num 100)) (Num 10))) (Num 10))
               (js_div (js_round (js_mul (js_mul (js_max0 y) (Num 100)) (Num 10))) (Num 10))"
  by (intro js_div_pos_mono js_round_mono js_mul_pos_mono js_max0_mono assms) simp_all

lemma js_max0_nonpos: "js_le v (Num 0) \<Longrightarrow> js_max0 v = Num 0"
  by (cases v) auto

lemma js_max0_nonneg: "js_le (Num 0) v \<Longrightarrow> js_max0 v = v"
  by (cases v) auto

lemma sizePenalty_small:
  assumes "length c \<le> 2"
  shows "sizePenalty c = Num 0"
proof -
  have "(of_nat (length c) - 2) * (3602879701896397 / 72057594037927936 :: rat) \<le> 0"
    using assms by (intro mult_nonpos_nonneg) simp_all
  from fl_nonpos[OF this] show ?thesis
    unfolding sizePenalty_def fl_005 by (simp add: js_max0_nonpos)
qed

lemma sizePenalty_value:
  assumes "2 \<le> length c" and "length c \<le> 150"
  shows "\<exists>p. sizePenalty c = Num p \<and> 0 \<le> p \<and> p \<le> 8
            \<and> \<bar>p - (of_nat (length c) - 2) / 20\<bar> \<le> 1 / 562949953421312"
proof -
  define K :: rat where "K = of_nat (length c)"
  define x :: rat where "x = (K - 2) * (3602879701896397 / 72057594037927936)"
  have k: "2 \<le> K" "K \<le> 150"
    unfolding K_def
    using of_nat_mono[OF assms(1), where ?'a = rat] of_nat_mono[OF assms(2), where ?'a = rat]
    by simp_all
  have xk: "x = (K - 2) / 20 + (K - 2) / 360287970189639680"
    unfolding x_def by (simp add: field_simps)
  have x0: "0 \<le> x" and x8: "x \<le> 15 / 2" unfolding xk using k by simp_all
  have e: "(2::rat) powi (3 - 53) = 1 / 1125899906842624" by simp
  have "\<bar>x\<bar> \<le> 2 powi 3" using x0 x8 by simp
  from fl_error[OF this] obtain p where p: "fl x = Num p" "\<bar>p - x\<bar> \<le> 1 / 1125899906842624"
    unfolding e by auto
  from fl_nonneg[OF x0] p(1) have p0: "0 \<le> p" by simp
  have p8: "p \<le> 8" using p(2) x8 by linarith
  note b = abs_le_D1[OF p(2)] abs_le_D2[OF p(2)]
  have close: "\<bar>p - (K - 2) / 20\<bar> \<le> 1 / 562949953421312"
  proof (rule abs_leI)
    show "p - (K - 2) / 20 \<le> 1 / 562949953421312"
      using b k unfolding xk by (simp add: field_simps)
    show "- (p - (K - 2) / 20) \<le> 1 / 562949953421312"
      using b k unfolding xk by (simp add: field_simps)
  qed
  have "sizePenalty c = Num p"
    unfolding sizePenalty_def fl_005 using p(1) p0 by (simp add: x_def K_def)
  with p0 p8 close show ?thesis unfolding K_def by blast
qed

lemma preclamp_gap:
  assumes "2 \<le> length c1" and "length c1 \<le> length c2" and "length c2 \<le> 150"
    and "0 \<le> a" and "a \<le> 1"
  shows "\<exists>v1 v2. js_sub (Num a) (sizePenalty c1) = Num v1
            \<and> js_sub (Num a) (sizePenalty c2) = Num v2
            \<and> \<bar>100 * (v1 - v2) - 5 * (of_nat (length c2) - of_nat (length c1))\<bar> \<le> 1 / 10 ^ 12"
proof -
  from assms have l1: "2 \<le> length c1" "length c1 \<le> 150" and l2: "2 \<le> length c2" "length c2 \<le> 150"
    by simp_all
  define K1 :: rat where "K1 = of_nat (length c1)"
  define K2 :: rat where "K2 = of_nat (length c2)"
  from sizePenalty_value[OF l1] obtain p1 where
    p1: "sizePenalty c1 = Num p1" "0 \<le> p1" "p1 \<le> 8"
        "\<bar>p1 - (K1 - 2) / 20\<bar> \<le> 1 / 562949953421312" unfolding K1_def by blast
  from sizePenalty_value[OF l2] obtain p2 where
    p2: "sizePenalty c2 = Num p2" "0 \<le> p2" "p2 \<le> 8"
        "\<bar>p2 - (K2 - 2) / 20\<bar> \<le> 1 / 562949953421312" unfolding K2_def by blast
  have e: "(2::rat) powi (3 - 53) = 1 / 1125899906842624" by simp
  have "\<bar>a - p1\<bar> \<le> 2 powi 3" using assms(4,5) p1(2,3) by simp
  from fl_error[OF this] obtain v1 where
    v1: "fl (a - p1) = Num v1" "\<bar>v1 - (a - p1)\<bar> \<le> 1 / 1125899906842624" unfolding e by auto
  have "\<bar>a - p2\<bar> \<le> 2 powi 3" using assms(4,5) p2(2,3) by simp
  from fl_error[OF this] obtain v2 where
    v2: "fl (a - p2) = Num v2" "\<bar>v2 - (a - p2)\<bar> \<le> 1 / 1125899906842624" unfolding e by auto
  note b = abs_le_D1[OF p1(4)] abs_le_D2[OF p1(4)] abs_le_D1[OF p2(4)] abs_le_D2[OF p2(4)]
    abs_le_D1[OF v1(2)] abs_le_D2[OF v1(2)] abs_le_D1[OF v2(2)] abs_le_D2[OF v2(2)]
  have "\<bar>100 * (v1 - v2) - 5 * (K2 - K1)\<bar> \<le> 1 / 1000000000000"
  proof (rule abs_leI)
    show "100 * (v1 - v2) - 5 * (K2 - K1) \<le> 1 / 1000000000000"
      using b by (simp add: field_simps)
    show "- (100 * (v1 - v2) - 5 * (K2 - K1)) \<le> 1 / 1000000000000"
      using b by (simp add: field_simps)
  qed
  then have "\<bar>100 * (v1 - v2) - 5 * (of_nat (length c2) - of_nat (length c1))\<bar> \<le> 1 / 10 ^ 12"
    unfolding K1_def K2_def by simp
  then show ?thesis using v1(1) v2(1) by (simp add: p1(1) p2(1))
qed

subsection \<open>The code computes the specified formula\<close>

lemma fold_countStance:
  "fold countStance (stances st c) (a, n, d) =
     (a + specBucket 1 st c, n + specBucket 0 st c, d + specBucket (- 1) st c)"
  by (induction c arbitrary: a n d) (auto simp: stances_def specBucket_def)

lemma seatsByStance_eq:
  "seatsByStance st c = (specBucket 1 st c, specBucket 0 st c, specBucket (- 1) st c)"
  unfolding seatsByStance_def fold_countStance by simp

lemma totalSeats_eq: "totalSeats st c = specTotal st c"
  by (simp add: totalSeats_def specTotal_def seatsByStance_eq)

lemma maxSeats_eq:
  "maxSeats st c = max (specBucket 1 st c) (max (specBucket 0 st c) (specBucket (- 1) st c))"
  by (simp add: maxSeats_def seatsByStance_eq)

lemma majorityFraction_eq: "majorityFraction st c = specMajorityFraction st c"
  by (simp add: majorityFraction_def specMajorityFraction_def totalSeats_eq maxSeats_eq)

lemma statementStep_eq:
  "statementStep c st t =
     (if specTotal st c = 0 then t else js_add t (specStatementAgreement st c))"
  by (simp add: statementStep_def specStatementAgreement_def totalSeats_eq
      majorityFraction_eq Let_def)

lemma fold_statementStep:
  "fold (statementStep c) sts t =
     foldl js_add t (map (\<lambda>st. specStatementAgreement st c)
                        (filter (\<lambda>st. specTotal st c \<noteq> 0) sts))"
  by (induction sts arbitrary: t) (simp_all add: statementStep_eq)

lemma totalAgreementScore_eq:
  "totalAgreementScore sts c =
     foldl js_add (Num 0) (map (\<lambda>st. specStatementAgreement st c)
                              (filter (\<lambda>st. specTotal st c \<noteq> 0) sts))"
  by (simp add: totalAgreementScore_def fold_statementStep)

lemma averageAgreementRaw_eq: "averageAgreementRaw sts c = specAverageAgreement sts c"
  by (simp add: averageAgreementRaw_def specAverageAgreement_def totalAgreementScore_eq)

lemma agreementRate_eq:
  "agreementRate (calculateCoalitionAgreement sts c) = specAgreementRate sts c"
  by (simp add: calculateCoalitionAgreement_def specAgreementRate_def roundTo1_def
      adjustedAgreementRaw_def averageAgreementRaw_eq sizePenalty_def specPenalty_def)

text \<open>The rate alone, without the other fields of the returned object.\<close>

lemma agreementRate_unfold:
  "agreementRate (calculateCoalitionAgreement sts c)
     = roundTo1 (js_mul (adjustedAgreementRaw sts c) (Num 100))"
  by (simp add: calculateCoalitionAgreement_def roundTo1_def)

lemma rate_example_AB:
  "agreementRate (calculateCoalitionAgreement [exampleStatement] [partyA, partyB]) = Num 100"
  unfolding agreementRate_unfold by code_simp

lemma rate_example_ABC:
  "agreementRate (calculateCoalitionAgreement [exampleStatement] [partyA, partyB, partyC])
     = fl (497 / 10)"
  unfolding agreementRate_unfold by code_simp

lemma tally_example_ABC:
  "seatsByStance exampleStatement [partyA, partyB, partyC] = (116, 0, 34)"
  by code_simp

lemma fl_49_7_33_2: "fl (497 / 10) \<noteq> fl (332 / 10) \<and> js_lt (fl (332 / 10)) (fl (497 / 10))"
  by code_simp

text \<open>
  Claim C4, as stated, fails on its second example: for the coalition of A, B and C the
  tally is 116 seats for and 34 against (B's 40 seats count), and the rate is 49.7 (the
  double nearest to it), not 33.2.
\<close>

theorem example_ABC_rate_is_not_33_2:
  "agreementRate (calculateCoalitionAgreement [exampleStatement] [partyA, partyB, partyC])
     = fl (497 / 10)
   \<and> fl (497 / 10) \<noteq> fl (332 / 10)
   \<and> seatsByStance exampleStatement [partyA, partyB, partyC] = (116, 0, 34)"
  using rate_example_ABC tally_example_ABC fl_49_7_33_2 by simp

text \<open>
  Claim C4, amended. The rate computed by \<open>calculateCoalitionAgreement\<close> is the specified
  continuous-weighted formula, evaluated in double arithmetic with every operation
  rounded, for every statement list and coalition; on the example statement the coalition
  of A and B scores 100.0 and the coalition of A, B and C scores 49.7.
\<close>

theorem agreement_formula:
  "agreementRate (calculateCoalitionAgreement sts c) = specAgreementRate sts c
   \<and> agreementRate (calculateCoalitionAgreement [exampleStatement] [partyA, partyB]) = Num 100
   \<and> agreementRate (calculateCoalitionAgreement [exampleStatement] [partyA, partyB, partyC])
       = fl (497 / 10)"
  using agreementRate_eq rate_example_AB rate_example_ABC by simp

theorem agreement_formula_witness:
  "specAgreementRate [exampleStatement] [partyA, partyB] = Num 100
   \<and> specAgreementRate [exampleStatement] [partyA, partyB, partyC] = fl (497 / 10)"
  using agreement_formula[of "[exampleStatement]" "[partyA, partyB]"]
    agreement_formula[of "[exampleStatement]" "[partyA, partyB, partyC]"]
  by simp

subsection \<open>Range of the rate\<close>

lemma fl_half: "fl (1 / 2) = Num (1 / 2)"
  by code_simp

lemma fl_one: "fl 1 = Num 1" by code_simp

lemma fl_minus_one: "fl (- 1) = Num (- 1)" by code_simp

lemma fl_minus_half: "fl (- (1 / 2)) = Num (- (1 / 2))" by code_simp

lemma fl_2_53: "fl 9007199254740992 = Num 9007199254740992" by code_simp

lemma fl_2_53_plus_1: "fl 9007199254740993 = Num 9007199254740992" by code_simp

lemma specBucket_nonneg: "\<forall>p\<in>set c. 0 \<le> party.seats p \<Longrightarrow> 0 \<le> specBucket v st c"
  unfolding specBucket_def by (rule sum_list_nonneg) auto

lemma fraction_unit:
  assumes "\<forall>p\<in>set c. 0 \<le> party.seats p" and "totalSeats st c \<noteq> 0"
  shows "\<exists>m. majorityFraction st c = Num m \<and> 0 \<le> m \<and> m \<le> 1"
proof -
  let ?a = "specBucket 1 st c" and ?n = "specBucket 0 st c" and ?d = "specBucket (- 1) st c"
  have nn: "0 \<le> ?a" "0 \<le> ?n" "0 \<le> ?d" using assms(1) by (simp_all add: specBucket_nonneg)
  have tot: "totalSeats st c = ?a + ?n + ?d" by (simp add: totalSeats_eq specTotal_def)
  with assms(2) nn have pos: "0 < totalSeats st c" by linarith
  have mx: "0 \<le> maxSeats st c" "maxSeats st c \<le> totalSeats st c"
    unfolding maxSeats_eq tot using nn by simp_all
  define r :: rat where "r = of_int (maxSeats st c) / of_int (totalSeats st c)"
  have r0: "0 \<le> r" unfolding r_def using mx(1) pos by simp
  have r1: "r \<le> 1" unfolding r_def using mx(2) pos by (simp add: pos_divide_le_eq)
  have "majorityFraction st c = fl r" using assms(2) by (simp add: majorityFraction_def r_def)
  with fl_between[OF r0 r1 fl_zero fl_one] show ?thesis by simp
qed

lemma score_unit:
  assumes "\<forall>p\<in>set c. 0 \<le> party.seats p" and "totalSeats st c \<noteq> 0"
  shows "\<exists>s. js_max0 (js_div (js_sub (majorityFraction st c) (Num (1 / 2))) (Num (1 / 2))) = Num s
            \<and> 0 \<le> s \<and> s \<le> 1"
proof -
  from fraction_unit[OF assms] obtain m where
    m: "majorityFraction st c = Num m" "0 \<le> m" "m \<le> 1" by blast
  have "- (1 / 2) \<le> m - 1 / 2" "m - 1 / 2 \<le> 1 / 2" using m(2,3) by simp_all
  from fl_between[OF this fl_minus_half fl_half] obtain u where
    u: "fl (m - 1 / 2) = Num u" "- (1 / 2) \<le> u" "u \<le> 1 / 2" by blast
  have "- 1 \<le> u / (1 / 2)" "u / (1 / 2) \<le> 1" using u(2,3) by simp_all
  from fl_between[OF this fl_minus_one fl_one] obtain w where
    w: "fl (u / (1 / 2)) = Num w" "- 1 \<le> w" "w \<le> 1" by blast
  show ?thesis using w by (simp add: m(1) u(1))
qed

lemma statementStep_bounded:
  assumes "\<forall>p\<in>set c. 0 \<le> party.seats p" and "0 \<le> x" and "x \<le> 9007199254740992"
  shows "\<exists>y. statementStep c st (Num x) = Num y \<and> 0 \<le> y \<and> y \<le> 9007199254740992"
proof (cases "totalSeats st c = 0")
  case True
  with assms(2,3) show ?thesis by (simp add: statementStep_def)
next
  case False
  from score_unit[OF assms(1) False] obtain s where
    s: "js_max0 (js_div (js_sub (majorityFraction st c) (Num (1 / 2))) (Num (1 / 2))) = Num s"
       "0 \<le> s" "s \<le> 1" by blast
  have "0 \<le> x + s" "x + s \<le> 9007199254740993" using assms(2,3) s(2,3) by simp_all
  from fl_between[OF this fl_zero fl_2_53_plus_1] show ?thesis
    using False by (simp add: statementStep_def s(1))
qed

lemma fold_statementStep_bounded:
  assumes "\<forall>p\<in>set c. 0 \<le> party.seats p" and "0 \<le> x" and "x \<le> 9007199254740992"
  shows "\<exists>y. fold (statementStep c) sts (Num x) = Num y \<and> 0 \<le> y \<and> y \<le> 9007199254740992"
  using assms(2,3)
proof (induction sts arbitrary: x)
  case Nil
  then show ?case by simp
next
  case (Cons st sts)
  from statementStep_bounded[OF assms(1) Cons.prems] obtain y where
    y: "statementStep c st (Num x) = Num y" "0 \<le> y" "y \<le> 9007199254740992" by blast
  from Cons.IH[OF y(2,3)] show ?case by (simp add: y(1))
qed

lemma sizePenalty_cases: "(\<exists>p. sizePenalty c = Num p \<and> 0 \<le> p) \<or> sizePenalty c = PosInf"
  unfolding sizePenalty_def fl_005
  by (cases "fl ((of_nat (length c) - 2) * (3602879701896397 / 72057594037927936))")
     (simp_all add: fl_not_NaN)

text \<open>Integers up to \<open>2^53\<close> are doubles.\<close>

lemma roundPos_of_int:
  assumes "1 \<le> k" and "k < 2 ^ 53"
  shows "roundPos (of_int k) = of_int k"
proof -
  let ?x = "of_int k :: rat"
  define e where "e = ilog2 ?x"
  have x: "0 < ?x" using assms(1) by simp
  have "(2::rat) powi e \<le> ?x" unfolding e_def by (rule ilog2_bounds(1)[OF x])
  also have "?x < of_int (2 ^ 53)" using assms(2) by (simp only: of_int_less_iff)
  also have "(of_int (2 ^ 53) :: rat) = 2 powi 53" by simp
  finally have e53: "e < 53" by (rule pow2_less_cancel)
  have "(2::rat) powi 0 \<le> ?x" using assms(1) by simp
  also have "?x < 2 powi (e + 1)" unfolding e_def by (rule ilog2_bounds(2)[OF x])
  finally have "0 < e + 1" by (rule pow2_less_cancel)
  then have e0: "0 \<le> e" by simp
  have ex: "expo ?x = e" using e0 by (simp add: expo_def e_def)
  define n where "n = nat (52 - e)"
  have p: "(2::rat) powi (52 - e) = of_int (2 ^ n)"
    using e53 by (simp add: power_int_def n_def)
  have inv: "(2::rat) powi (52 - e) * 2 powi (e - 52) = 1"
    by (simp flip: pow2_add)
  have "?x / 2 powi (e - 52) = ?x * (2 powi (52 - e) * 2 powi (e - 52)) / 2 powi (e - 52)"
    by (simp only: inv mult_1_right)
  also have "\<dots> = ?x * 2 powi (52 - e)" by simp
  also have "\<dots> = of_int (k * 2 ^ n)" by (simp only: p of_int_mult)
  finally have "mant ?x = k * 2 ^ n" by (simp only: mant_def ex rne_of_int)
  then have "roundPos ?x = of_int (k * 2 ^ n) * 2 powi (e - 52)"
    by (simp only: roundPos_def ex)
  also have "\<dots> = ?x * (2 powi (52 - e) * 2 powi (e - 52))"
    by (simp only: p of_int_mult mult.assoc)
  also have "\<dots> = ?x" by (simp only: inv mult_1_right)
  finally show ?thesis .
qed

lemma fl_of_nat:
  assumes "n \<le> 2 ^ 53"
  shows "fl (of_nat n) = Num (of_nat n)"
proof -
  consider "n = 0" | "n = 2 ^ 53" | "1 \<le> n" "n < 2 ^ 53" using assms by linarith
  then show ?thesis
  proof cases
    case 1
    then show ?thesis by (simp add: fl_zero)
  next
    case 2
    then show ?thesis by (simp add: fl_2_53)
  next
    case 3
    let ?k = "int n"
    have k: "1 \<le> ?k" "?k < 2 ^ 53" using 3 by simp_all
    have r: "roundPos (of_int ?k) = of_int ?k" by (rule roundPos_of_int[OF k])
    have "(of_int ?k :: rat) < of_int (2 ^ 53)" using k(2) by (simp only: of_int_less_iff)
    also have "(of_int (2 ^ 53) :: rat) = 2 powi 53" by simp
    also have "(2::rat) powi 53 < 2 powi 1024" by (rule pow2_strict_mono) simp
    finally have small: "\<not> 2 powi 1024 \<le> (of_int ?k :: rat)" by (simp only: not_le)
    have "0 < (of_int ?k :: rat)" using k(1) by simp
    from fl_pos[OF this] have "fl (of_int ?k) = Num (of_int ?k)"
      by (simp only: r small if_False)
    then show ?thesis by simp
  qed
qed

lemma statementStep_count:
  assumes "\<forall>p\<in>set c. 0 \<le> party.seats p" and "0 \<le> x" and "x \<le> 9007199254740992"
    and "x \<le> of_nat j"
  shows "\<exists>y. statementStep c st (Num x) = Num y \<and> 0 \<le> y \<and> y \<le> 9007199254740992
            \<and> y \<le> of_nat (Suc j)"
proof -
  from statementStep_bounded[OF assms(1-3)] obtain y where
    y: "statementStep c st (Num x) = Num y" "0 \<le> y" "y \<le> 9007199254740992" by blast
  have "y \<le> of_nat (Suc j)"
  proof (cases "Suc j \<le> 2 ^ 53")
    case True
    show ?thesis
    proof (cases "totalSeats st c = 0")
      case True
      with y(1) assms(4) show ?thesis by (simp add: statementStep_def)
    next
      case False
      from score_unit[OF assms(1) False] obtain s where
        s: "js_max0 (js_div (js_sub (majorityFraction st c) (Num (1 / 2))) (Num (1 / 2))) = Num s"
           "0 \<le> s" "s \<le> 1" by blast
      have "0 \<le> x + s" "x + s \<le> of_nat (Suc j)" using assms(2,4) s(2,3) by simp_all
      from fl_between[OF this fl_zero fl_of_nat[OF True]] y(1) False
      show ?thesis by (simp add: statementStep_def s(1))
    qed
  next
    case False
    then have "(2::nat) ^ 53 \<le> Suc j" by simp
    from of_nat_mono[OF this, where ?'a = rat] have "9007199254740992 \<le> (of_nat (Suc j) :: rat)"
      by simp
    with y(3) show ?thesis by linarith
  qed
  with y show ?thesis by blast
qed

lemma fold_statementStep_count:
  assumes "\<forall>p\<in>set c. 0 \<le> party.seats p" and "0 \<le> x" and "x \<le> 9007199254740992"
    and "x \<le> of_nat j"
  shows "\<exists>y. fold (statementStep c) sts (Num x) = Num y \<and> 0 \<le> y
            \<and> y \<le> of_nat (j + length sts)"
  using assms(2-4)
proof (induction sts arbitrary: x j)
  case Nil
  then show ?case by simp
next
  case (Cons st sts)
  from statementStep_count[OF assms(1) Cons.prems] obtain y where
    y: "statementStep c st (Num x) = Num y" "0 \<le> y" "y \<le> 9007199254740992"
       "y \<le> of_nat (Suc j)" by blast
  from Cons.IH[OF y(2,3,4)] show ?case by (simp add: y(1))
qed

lemma average_unit:
  assumes "\<forall>p\<in>set c. 0 \<le> party.seats p" and "sts \<noteq> []"
  shows "\<exists>a. averageAgreementRaw sts c = Num a \<and> 0 \<le> a \<and> a \<le> 1"
proof -
  from fold_statementStep_count[OF assms(1), of 0 0 sts] obtain t where
    t: "totalAgreementScore sts c = Num t" "0 \<le> t" "t \<le> of_nat (length sts)"
    unfolding totalAgreementScore_def by auto
  define n :: rat where "n = of_nat (length sts)"
  have n: "0 < n" unfolding n_def using assms(2) by simp
  have "0 \<le> t / n" using t(2) n by simp
  moreover have "t / n \<le> 1" using t(3) n by (simp add: n_def)
  ultimately obtain a where "fl (t / n) = Num a" "0 \<le> a" "a \<le> 1"
    using fl_between[OF _ _ fl_zero fl_one] by blast
  then show ?thesis using assms(2) by (simp add: averageAgreementRaw_def t(1) n_def)
qed

lemma adjusted_unit:
  assumes "\<forall>p\<in>set c. 0 \<le> party.seats p" and "sts \<noteq> []"
  shows "\<exists>d. adjustedAgreementRaw sts c = Num d \<and> 0 \<le> d \<and> d \<le> 1"
proof -
  from average_unit[OF assms] obtain a where
    a: "averageAgreementRaw sts c = Num a" "0 \<le> a" "a \<le> 1" by blast
  from sizePenalty_cases[of c] show ?thesis
  proof
    assume "\<exists>p. sizePenalty c = Num p \<and> 0 \<le> p"
    then obtain p where p: "sizePenalty c = Num p" "0 \<le> p" by blast
    have "a - p \<le> 1" using a(3) p(2) by simp
    from fl_mono[OF this] have "js_le (fl (a - p)) (Num 1)" by (simp only: fl_one)
    then show ?thesis
      unfolding adjustedAgreementRaw_def a(1) p(1) by (cases "fl (a - p)") auto
  next
    assume "sizePenalty c = PosInf"
    then show ?thesis unfolding adjustedAgreementRaw_def a(1) by simp
  qed
qed

lemma fl_100: "fl 100 = Num 100" by code_simp

lemma fl_1000: "fl 1000 = Num 1000" by code_simp

text \<open>
  With at least one statement and non-negative seat counts the rate is a number between 0
  and 100.
\<close>

lemma rate_bounds:
  assumes "\<forall>p\<in>set c. 0 \<le> party.seats p" and "sts \<noteq> []"
  shows "\<exists>q. agreementRate (calculateCoalitionAgreement sts c) = Num q \<and> 0 \<le> q \<and> q \<le> 100"
proof -
  from adjusted_unit[OF assms] obtain d where
    d: "adjustedAgreementRaw sts c = Num d" "0 \<le> d" "d \<le> 1" by blast
  have "0 \<le> d * 100" "d * 100 \<le> 100" using d(2,3) by simp_all
  from fl_between[OF this fl_zero fl_100] obtain y1 where
    y1: "fl (d * 100) = Num y1" "0 \<le> y1" "y1 \<le> 100" by blast
  have "0 \<le> y1 * 10" "y1 * 10 \<le> 1000" using y1(2,3) by simp_all
  from fl_between[OF this fl_zero fl_1000] obtain y2 where
    y2: "fl (y1 * 10) = Num y2" "0 \<le> y2" "y2 \<le> 1000" by blast
  define y3 :: rat where "y3 = of_int \<lfloor>y2 + 1 / 2\<rfloor>"
  from y2(2) have lo: "0 \<le> \<lfloor>y2 + 1 / 2\<rfloor>" by simp
  from y2(3) have "y2 + 1 / 2 < of_int 1000 + 1" by simp
  then have hi: "\<lfloor>y2 + 1 / 2\<rfloor> \<le> 1000" by (simp only: floor_le_iff)
  from lo hi have "0 \<le> y3 / 10" "y3 / 10 \<le> 100" by (simp_all add: y3_def)
  from fl_between[OF this fl_zero fl_100] obtain q where
    q: "fl (y3 / 10) = Num q" "0 \<le> q" "q \<le> 100" by blast
  show ?thesis
    unfolding agreementRate_unfold roundTo1_def d(1) using y1(1) y2(1) q by (simp add: y3_def)
qed

text \<open>
  With at least one statement, a coalition without any recorded stance scores 0.
\<close>

lemma rate_zero_stances:
  assumes "sts \<noteq> []" and "\<forall>st\<in>set sts. totalSeats st c = 0"
  shows "agreementRate (calculateCoalitionAgreement sts c) = Num 0"
proof -
  have "fold (statementStep c) sts (Num 0) = Num 0"
    using assms(2) by (induction sts) (simp_all add: statementStep_def)
  then have avg: "averageAgreementRaw sts c = Num 0"
    using assms(1) by (simp add: averageAgreementRaw_def totalAgreementScore_def fl_zero)
  have adj: "adjustedAgreementRaw sts c = Num 0"
    using sizePenalty_cases[of c]
  proof
    assume "\<exists>p. sizePenalty c = Num p \<and> 0 \<le> p"
    then obtain p where p: "sizePenalty c = Num p" "0 \<le> p" by blast
    have "js_le (fl (0 - p)) (Num 0)" using p(2) by (intro fl_nonpos) simp
    then show ?thesis
      unfolding adjustedAgreementRaw_def avg p(1) by (simp add: js_max0_nonpos)
  next
    assume "sizePenalty c = PosInf"
    then show ?thesis unfolding adjustedAgreementRaw_def avg by simp
  qed
  have f: "\<lfloor>(1 / 2 :: rat)\<rfloor> = 0" by (rule floor_unique) simp_all
  show ?thesis unfolding agreementRate_unfold roundTo1_def adj by (simp add: fl_zero f)
qed

lemma rate_onGrid:
  assumes "agreementRate (calculateCoalitionAgreement sts c) = Num q"
  shows "onGrid q"
proof -
  define X where "X = js_round (js_mul (js_mul (adjustedAgreementRaw sts c) (Num 100)) (Num 10))"
  have "js_div X (Num 10) = Num q"
    using assms unfolding agreementRate_unfold roundTo1_def X_def .
  then show ?thesis by (cases X) (auto dest: fl_onGrid)
qed

subsection \<open>The empty statement list\<close>

lemma averageAgreement_NaN: "averageAgreementRaw [] c = NaN"
  by (simp add: averageAgreementRaw_def totalAgreementScore_def)

lemma rate_NaN: "agreementRate (calculateCoalitionAgreement [] c) = NaN"
  by (simp add: calculateCoalitionAgreement_def adjustedAgreementRaw_def averageAgreement_NaN)

text \<open>
  Claim C5 does not hold of the code: with an empty statement list the average is
  \<^verbatim>\<open>0 / 0\<close>, and the rate of every coalition, here the coalition of A alone, is NaN.
\<close>

theorem empty_statements_rate_is_NaN:
  "agreementRate (calculateCoalitionAgreement [] [partyA]) = NaN"
  by (rule rate_NaN)

subsection \<open>Missing stances and statements without recorded stances\<close>

lemma specBucket_skip:
  "positions st (name p) \<noteq> Some v \<Longrightarrow>
   specBucket v st (c1 @ p # c2) = specBucket v st (c1 @ c2)"
  by (simp add: specBucket_def)

lemma tally_example_AB: "seatsByStance exampleStatement [partyA, partyB] = (116, 0, 0)"
  by code_simp

lemma total_example_AB: "totalAgreementScore [exampleStatement] [partyA, partyB] = Num 1"
  by code_simp

lemma blank_example_AB: "totalSeats blankStatement [partyA, partyB] = 0"
  by code_simp

text \<open>
  Claim C6. A coalition party whose stance on a statement is missing or is none of 1, 0
  and -1 leaves the three seat totals as they are, so the tally is that of the coalition
  without it. A statement whose \<open>totalSeats\<close> is 0 leaves the running agreement sum as it
  is, so the sum is that of the statement list without it, while \<open>totalStatements\<close> and
  the divisor of the average still count it.
\<close>

theorem missing_stance_and_zero_total:
  "(positions st (name p) \<notin> {Some 1, Some 0, Some (- 1)} \<longrightarrow>
      countStance (name p, positions st (name p), party.seats p) (a, n, d) = (a, n, d)
    \<and> seatsByStance st (c1 @ p # c2) = seatsByStance st (c1 @ c2))
   \<and> (totalSeats st c = 0 \<longrightarrow>
        statementStep c st t = t
      \<and> totalAgreementScore (s1 @ st # s2) c = totalAgreementScore (s1 @ s2) c
      \<and> totalStatements (calculateCoalitionAgreement (s1 @ st # s2) c)
          = length s1 + length s2 + 1
      \<and> averageAgreementRaw (s1 @ st # s2) c =
          js_div (totalAgreementScore (s1 @ s2) c) (Num (of_nat (length s1 + length s2 + 1))))"
proof (intro conjI impI)
  assume "positions st (name p) \<notin> {Some 1, Some 0, Some (- 1)}"
  then have n: "positions st (name p) \<noteq> Some 1" "positions st (name p) \<noteq> Some 0"
    "positions st (name p) \<noteq> Some (- 1)" by auto
  from n show "countStance (name p, positions st (name p), party.seats p) (a, n, d) = (a, n, d)"
    by simp
  from n show "seatsByStance st (c1 @ p # c2) = seatsByStance st (c1 @ c2)"
    by (simp add: seatsByStance_eq specBucket_skip)
next
  assume z: "totalSeats st c = 0"
  show stp: "statementStep c st t = t" for t using z by (simp add: statementStep_def)
  show tot: "totalAgreementScore (s1 @ st # s2) c = totalAgreementScore (s1 @ s2) c"
    by (simp add: totalAgreementScore_def stp)
  show "totalStatements (calculateCoalitionAgreement (s1 @ st # s2) c)
          = length s1 + length s2 + 1"
    by (simp add: calculateCoalitionAgreement_def)
  show "averageAgreementRaw (s1 @ st # s2) c =
         js_div (totalAgreementScore (s1 @ s2) c) (Num (of_nat (length s1 + length s2 + 1)))"
    unfolding averageAgreementRaw_def tot by simp
qed

theorem missing_stance_and_zero_total_witness:
  "positions exampleStatement (name partyD) \<notin> {Some 1, Some 0, Some (- 1)}
   \<and> seatsByStance exampleStatement [partyA, partyD, partyB] = (116, 0, 0)
   \<and> seatsByStance exampleStatement [partyA, partyB] = (116, 0, 0)
   \<and> totalSeats blankStatement [partyA, partyB] = 0
   \<and> totalAgreementScore [exampleStatement, blankStatement] [partyA, partyB] = Num 1
   \<and> totalStatements
        (calculateCoalitionAgreement [exampleStatement, blankStatement] [partyA, partyB]) = 2
   \<and> averageAgreementRaw [exampleStatement, blankStatement] [partyA, partyB] = Num (1 / 2)"
proof -
  have h1: "positions exampleStatement (name partyD) \<notin> {Some 1, Some 0, Some (- 1)}"
    by (simp add: exampleStatement_def partyD_def)
  have e3: "seatsByStance exampleStatement [partyA, partyD, partyB] = (116, 0, 0)"
    using missing_stance_and_zero_total[where st = exampleStatement and p = partyD
        and ?c1.0 = "[partyA]" and ?c2.0 = "[partyB]"]
      h1 tally_example_AB by simp
  have e4: "totalAgreementScore [exampleStatement, blankStatement] [partyA, partyB] = Num 1
     \<and> totalStatements
          (calculateCoalitionAgreement [exampleStatement, blankStatement] [partyA, partyB]) = 2
     \<and> averageAgreementRaw [exampleStatement, blankStatement] [partyA, partyB] = Num (1 / 2)"
    using missing_stance_and_zero_total[where st = blankStatement and c = "[partyA, partyB]"
        and ?s1.0 = "[exampleStatement]" and ?s2.0 = "[]"]
      blank_example_AB total_example_AB by (simp add: fl_half)
  show ?thesis using h1 blank_example_AB tally_example_AB e3 e4 by simp
qed

subsection \<open>The majority fraction\<close>

lemma js_sub_mono_left: "js_le x y \<Longrightarrow> js_le (js_sub x (Num b)) (js_sub y (Num b))"
  by (cases x; cases y) (auto simp: fl_mono fl_not_NaN js_le_PosInf js_le_NegInf)

lemma rescale_nonneg:
  assumes "js_le (Num (1 / 2)) mf"
  shows "js_le (Num 0) (js_div (js_sub mf (Num (1 / 2))) (Num (1 / 2)))"
proof -
  have "js_le (js_div (js_sub (Num (1 / 2)) (Num (1 / 2))) (Num (1 / 2)))
              (js_div (js_sub mf (Num (1 / 2))) (Num (1 / 2)))"
    by (intro js_div_pos_mono js_sub_mono_left assms) simp
  then show ?thesis by (simp add: fl_zero)
qed

lemma split_example_total: "totalSeats splitStatement [partyX, partyY, partyZ] = 120"
  by code_simp

lemma split_example_fraction:
  "majorityFraction splitStatement [partyX, partyY, partyZ] = fl (1 / 3)"
  by code_simp

lemma split_example_rescaled:
  "js_lt (fl (1 / 3)) (Num (1 / 2))
   \<and> js_lt (js_div (js_sub (fl (1 / 3)) (Num (1 / 2))) (Num (1 / 2))) (Num 0)
   \<and> js_add (Num 0) (js_max0 (js_div (js_sub (fl (1 / 3)) (Num (1 / 2))) (Num (1 / 2)))) = Num 0"
  by code_simp

text \<open>
  Claim C8, as stated, fails: three parties of 40 seats with the three different stances
  give \<open>totalSeats = 120\<close> and a majority fraction of 1/3 (rounded to a double), below
  0.5; the rescaled value is negative and the clamp makes the statement contribute 0.
\<close>

theorem three_way_split_below_half:
  "0 < totalSeats splitStatement [partyX, partyY, partyZ]
   \<and> majorityFraction splitStatement [partyX, partyY, partyZ] = fl (1 / 3)
   \<and> js_lt (majorityFraction splitStatement [partyX, partyY, partyZ]) (Num (1 / 2))
   \<and> js_lt (js_div (js_sub (majorityFraction splitStatement [partyX, partyY, partyZ])
                        (Num (1 / 2))) (Num (1 / 2))) (Num 0)
   \<and> statementStep [partyX, partyY, partyZ] splitStatement (Num 0) = Num 0"
  using split_example_rescaled
  by (simp add: statementStep_def split_example_total split_example_fraction)

text \<open>
  Claim C8, amended. For every coalition and every statement with \<open>totalSeats > 0\<close> the
  majority fraction is at least 1/3, as the exact ratio and as the rounded quotient that
  the code computes; when one of the three seat totals is 0 it is at least 0.5, and the
  clamp has no effect: the statement adds the rescaled fraction itself.
\<close>

theorem majority_fraction_lower_bounds:
  assumes "0 < totalSeats st c"
  shows "(1 / 3 :: rat) \<le> of_int (maxSeats st c) / of_int (totalSeats st c)
       \<and> js_le (fl (1 / 3)) (majorityFraction st c)
       \<and> ((case seatsByStance st c of (a, n, d) \<Rightarrow> a = 0 \<or> n = 0 \<or> d = 0)
            \<longrightarrow> (1 / 2 :: rat) \<le> of_int (maxSeats st c) / of_int (totalSeats st c)
              \<and> js_le (Num (1 / 2)) (majorityFraction st c)
              \<and> statementStep c st t =
                  js_add t (js_div (js_sub (majorityFraction st c) (Num (1 / 2))) (Num (1 / 2))))"
proof -
  obtain a n d where s: "seatsByStance st c = (a, n, d)"
    by (cases "seatsByStance st c") auto
  from assms s have tot: "0 < a + n + d" by (simp add: totalSeats_def)
  then have pos: "(0::rat) < of_int (a + n + d)" by (simp only: of_int_0_less_iff)
  define r :: rat where "r = of_int (maxSeats st c) / of_int (totalSeats st c)"
  have r: "r = of_int (max a (max n d)) / of_int (a + n + d)"
    by (simp add: r_def maxSeats_def totalSeats_def s)
  have mf: "majorityFraction st c = fl r"
    using assms by (simp add: majorityFraction_def r_def)
  have "a + n + d \<le> 3 * max a (max n d)" by simp
  then have "(of_int (a + n + d) :: rat) \<le> of_int (3 * max a (max n d))"
    by (simp only: of_int_le_iff)
  then have third: "1 / 3 \<le> r"
    unfolding r using pos by (simp add: pos_le_divide_eq)
  have half: "1 / 2 \<le> r" if "a = 0 \<or> n = 0 \<or> d = 0"
  proof -
    from that have "a + n + d \<le> 2 * max a (max n d)" by auto
    then have "(of_int (a + n + d) :: rat) \<le> of_int (2 * max a (max n d))"
      by (simp only: of_int_le_iff)
    then show ?thesis unfolding r using pos by (simp add: pos_le_divide_eq)
  qed
  have third': "js_le (fl (1 / 3)) (majorityFraction st c)"
    unfolding mf by (rule fl_mono[OF third])
  have half': "js_le (Num (1 / 2)) (majorityFraction st c)" if "a = 0 \<or> n = 0 \<or> d = 0"
    using fl_mono[OF half[OF that]] unfolding mf fl_half .
  have noclamp: "statementStep c st t =
      js_add t (js_div (js_sub (majorityFraction st c) (Num (1 / 2))) (Num (1 / 2)))"
    if "a = 0 \<or> n = 0 \<or> d = 0"
    using assms js_max0_nonneg[OF rescale_nonneg[OF half'[OF that]]]
    by (simp add: statementStep_def Let_def)
  from third third' half half' noclamp show ?thesis by (simp add: s r_def)
qed

lemma fraction_example_ABC:
  "majorityFraction exampleStatement [partyA, partyB, partyC] = fl (58 / 75)
   \<and> js_le (Num (1 / 2)) (fl (58 / 75))"
  by code_simp

theorem majority_fraction_lower_bounds_witness:
  "0 < totalSeats exampleStatement [partyA, partyB, partyC]
   \<and> seatsByStance exampleStatement [partyA, partyB, partyC] = (116, 0, 34)
   \<and> majorityFraction exampleStatement [partyA, partyB, partyC] = fl (58 / 75)
   \<and> js_le (Num (1 / 2)) (fl (58 / 75))
   \<and> statementStep [partyA, partyB, partyC] exampleStatement (Num 0) =
       js_add (Num 0) (js_div (js_sub (fl (58 / 75)) (Num (1 / 2))) (Num (1 / 2)))"
proof -
  have t: "0 < totalSeats exampleStatement [partyA, partyB, partyC]" by code_simp
  from majority_fraction_lower_bounds[OF t, of "Num 0"] show ?thesis
    using t tally_example_ABC fraction_example_ABC by simp
qed

subsection \<open>The size penalty\<close>

lemma average_example_A: "averageAgreementRaw [exampleStatement] [partyA] = Num 1"
  by code_simp

lemma average_example_AB: "averageAgreementRaw [exampleStatement] [partyA, partyB] = Num 1"
  by code_simp

lemma rate_example_A:
  "agreementRate (calculateCoalitionAgreement [exampleStatement] [partyA]) = Num 100"
  unfolding agreementRate_unfold by code_simp

lemma preclamp_example_A:
  "js_mul (js_sub (Num 1) (sizePenalty [partyA])) (Num 100) = Num 100
   \<and> js_mul (js_sub (Num 1) (sizePenalty [partyA, partyB])) (Num 100) = Num 100"
  by code_simp

text \<open>
  Claim C7, as stated, fails for a coalition of one party: A alone and A with B have the
  same average agreement 1 and differ by one party, yet the value before the clamp is
  100 for both, and so is the rate: the penalty counts parties beyond two only.
\<close>

theorem one_party_and_two_parties_same_penalty:
  "averageAgreementRaw [exampleStatement] [partyA] = Num 1
   \<and> averageAgreementRaw [exampleStatement] [partyA, partyB] = Num 1
   \<and> length [partyA, partyB] = length [partyA] + 1
   \<and> js_mul (js_sub (averageAgreementRaw [exampleStatement] [partyA])
                (sizePenalty [partyA])) (Num 100) = Num 100
   \<and> js_mul (js_sub (averageAgreementRaw [exampleStatement] [partyA, partyB])
                (sizePenalty [partyA, partyB])) (Num 100) = Num 100
   \<and> agreementRate (calculateCoalitionAgreement [exampleStatement] [partyA]) = Num 100
   \<and> agreementRate (calculateCoalitionAgreement [exampleStatement] [partyA, partyB]) = Num 100"
  using rate_example_A rate_example_AB preclamp_example_A
  by (simp add: average_example_A average_example_AB)

text \<open>
  Nor is the difference exact in double arithmetic, since 0.05 is not a binary fraction:
  P with S and P with Q and R have the same average agreement 0.0625; before the clamp
  the first keeps 0.0625 and the second gets 0.012499999999999997, and the rates are 6.3
  and 1.2.
\<close>

lemma narrow_example_average:
  "averageAgreementRaw [narrowStatement] [partyP, partyS] = Num (1 / 16)
   \<and> averageAgreementRaw [narrowStatement] [partyP, partyQ, partyR] = Num (1 / 16)"
  by code_simp

lemma narrow_example_preclamp:
  "js_sub (Num (1 / 16)) (sizePenalty [partyP, partyS]) = Num (1 / 16)
   \<and> js_sub (Num (1 / 16)) (sizePenalty [partyP, partyQ, partyR])
       = Num (900719925474099 / 72057594037927936)
   \<and> 100 * ((1 / 16 :: rat) - 900719925474099 / 72057594037927936) \<noteq> 5"
  by code_simp

lemma narrow_example_rate:
  "agreementRate (calculateCoalitionAgreement [narrowStatement] [partyP, partyS]) = fl (63 / 10)
   \<and> agreementRate (calculateCoalitionAgreement [narrowStatement] [partyP, partyQ, partyR])
       = fl (12 / 10)"
  unfolding agreementRate_unfold by code_simp

text \<open>
  Claim C7, amended. For two coalitions with the same (defined) average agreement \<open>a\<close>,
  the one with at least as many parties has a rate that is at most the other's. A
  coalition of at most two parties has the penalty 0. When the smaller coalition has at
  least two parties (the larger at most 150, and \<open>a\<close> between 0 and 1), the values before
  the clamp, in percentage points, differ by 5 times the difference of the sizes up to
  the rounding of the floating-point operations, less than \<open>10\<^sup>-\<^sup>1\<^sup>2\<close> points.
\<close>

theorem size_penalty_monotone:
  assumes "averageAgreementRaw sts c1 = Num a" and "averageAgreementRaw sts c2 = Num a"
    and "length c1 \<le> length c2"
  shows "js_le (agreementRate (calculateCoalitionAgreement sts c2))
               (agreementRate (calculateCoalitionAgreement sts c1))
       \<and> (length c2 \<le> 2 \<longrightarrow> sizePenalty c1 = Num 0 \<and> sizePenalty c2 = Num 0)
       \<and> (2 \<le> length c1 \<and> length c2 \<le> 150 \<and> 0 \<le> a \<and> a \<le> 1 \<longrightarrow>
            (\<exists>v1 v2. js_sub (averageAgreementRaw sts c1) (sizePenalty c1) = Num v1
                \<and> js_sub (averageAgreementRaw sts c2) (sizePenalty c2) = Num v2
                \<and> \<bar>100 * (v1 - v2) - 5 * (of_nat (length c2) - of_nat (length c1))\<bar>
                     \<le> 1 / 10 ^ 12))"
proof (intro conjI impI)
  have "js_le (js_sub (Num a) (sizePenalty c2)) (js_sub (Num a) (sizePenalty c1))"
    by (rule js_sub_anti[OF sizePenalty_mono[OF assms(3)]])
  from rate_mono[OF this]
  show "js_le (agreementRate (calculateCoalitionAgreement sts c2))
              (agreementRate (calculateCoalitionAgreement sts c1))"
    by (simp add: agreementRate_unfold roundTo1_def adjustedAgreementRaw_def assms(1,2))
next
  assume "length c2 \<le> 2"
  with assms(3) show "sizePenalty c1 = Num 0" by (intro sizePenalty_small) simp
next
  assume "length c2 \<le> 2"
  then show "sizePenalty c2 = Num 0" by (rule sizePenalty_small)
next
  assume h: "2 \<le> length c1 \<and> length c2 \<le> 150 \<and> 0 \<le> a \<and> a \<le> 1"
  then have "2 \<le> length c1" "length c2 \<le> 150" "0 \<le> a" "a \<le> 1" by simp_all
  from preclamp_gap[OF this(1) assms(3) this(2,3,4)]
  show "\<exists>v1 v2. js_sub (averageAgreementRaw sts c1) (sizePenalty c1) = Num v1
                \<and> js_sub (averageAgreementRaw sts c2) (sizePenalty c2) = Num v2
                \<and> \<bar>100 * (v1 - v2) - 5 * (of_nat (length c2) - of_nat (length c1))\<bar>
                     \<le> 1 / 10 ^ 12"
    unfolding assms(1,2) .
qed

lemma average_agree_AB: "averageAgreementRaw [agreeStatement] [partyA, partyB] = Num 1"
  by code_simp

lemma average_agree_ABC: "averageAgreementRaw [agreeStatement] [partyA, partyB, partyC] = Num 1"
  by code_simp

lemma rate_agree:
  "roundTo1 (js_mul (js_max0 (js_sub (Num 1) (sizePenalty [partyA, partyB]))) (Num 100)) = Num 100
   \<and> roundTo1 (js_mul (js_max0 (js_sub (Num 1) (sizePenalty [partyA, partyB, partyC]))) (Num 100))
       = Num 95"
  by code_simp

theorem size_penalty_monotone_witness:
  "averageAgreementRaw [agreeStatement] [partyA, partyB] = Num 1
   \<and> averageAgreementRaw [agreeStatement] [partyA, partyB, partyC] = Num 1
   \<and> length [partyA, partyB] \<le> length [partyA, partyB, partyC]
   \<and> agreementRate (calculateCoalitionAgreement [agreeStatement] [partyA, partyB]) = Num 100
   \<and> agreementRate (calculateCoalitionAgreement [agreeStatement] [partyA, partyB, partyC])
       = Num 95
   \<and> js_le (Num 95) (Num 100)
   \<and> (\<exists>v1 v2. js_sub (Num 1) (sizePenalty [partyA, partyB]) = Num v1
          \<and> js_sub (Num 1) (sizePenalty [partyA, partyB, partyC]) = Num v2
          \<and> \<bar>100 * (v1 - v2) - 5\<bar> \<le> 1 / 10 ^ 12)"
proof -
  have 3: "length [partyA, partyB] \<le> length [partyA, partyB, partyC]" by simp
  have r: "agreementRate (calculateCoalitionAgreement [agreeStatement] [partyA, partyB]) = Num 100"
    "agreementRate (calculateCoalitionAgreement [agreeStatement] [partyA, partyB, partyC]) = Num 95"
    using rate_agree
    by (simp_all add: agreementRate_unfold adjustedAgreementRaw_def
        average_agree_AB average_agree_ABC)
  from size_penalty_monotone[OF average_agree_AB average_agree_ABC 3] show ?thesis
    using r by (simp add: average_agree_AB average_agree_ABC)
qed

subsection \<open>Ranking\<close>

lemma js_sub_neg_neq: "js_lt (js_sub a b) (Num 0) \<Longrightarrow> a \<noteq> b"
  by (cases a; cases b) (auto simp: fl_zero)

lemma set_insertSorted: "set (insertSorted cmp x ys) = insert x (set ys)"
  by (induction ys) auto

lemma mset_insertSorted: "mset (insertSorted cmp x ys) = add_mset x (mset ys)"
  by (induction ys) auto

lemma arraySort_Nil: "arraySort cmp [] = []"
  by (simp add: arraySort_def)

lemma arraySort_Cons: "arraySort cmp (x # xs) = insertSorted cmp x (arraySort cmp xs)"
  by (simp add: arraySort_def)

lemma set_arraySort: "set (arraySort cmp xs) = set xs"
  by (induction xs) (simp_all add: arraySort_Nil arraySort_Cons set_insertSorted)

lemma mset_arraySort: "mset (arraySort cmp xs) = mset xs"
  by (induction xs) (simp_all add: arraySort_Nil arraySort_Cons mset_insertSorted)

lemma length_arraySort: "length (arraySort cmp xs) = length xs"
  using arg_cong[OF mset_arraySort[of cmp xs], of size] by simp

text \<open>
  Stability: an element is only moved behind elements with a different rate, so the
  elements of one rate keep their order.
\<close>

lemma filter_insertSorted:
  "filter (\<lambda>s. rateOf s = k) (insertSorted compareFn x ys) =
     (if rateOf x = k then x # filter (\<lambda>s. rateOf s = k) ys
      else filter (\<lambda>s. rateOf s = k) ys)"
proof (induction ys)
  case Nil
  show ?case by simp
next
  case (Cons y ys)
  show ?case
  proof (cases "js_lt (compareFn y x) (Num 0)")
    case True
    then have "rateOf x \<noteq> rateOf y" unfolding compareFn_def by (rule js_sub_neg_neq)
    with True Cons show ?thesis by auto
  next
    case False
    then show ?thesis by simp
  qed
qed

lemma filter_arraySort:
  "filter (\<lambda>s. rateOf s = k) (arraySort compareFn xs) = filter (\<lambda>s. rateOf s = k) xs"
  by (induction xs) (simp_all add: arraySort_Nil arraySort_Cons filter_insertSorted)

text \<open>
  The comparison function subtracts two rates in floating point. Both are doubles, so the
  rounded difference is negative exactly when the exact difference is.
\<close>

lemma compareFn_neg:
  assumes "rateOf x = Num qx" and "onGrid qx" and "rateOf y = Num qy" and "onGrid qy"
  shows "js_lt (compareFn y x) (Num 0) \<longleftrightarrow> qx < qy"
  unfolding compareFn_def assms(1,3) using fl_sign_diff[OF assms(4,2)] by simp

lemma sorted_insertSorted:
  assumes "\<forall>s\<in>set (x # ys). \<exists>q. rateOf s = Num q \<and> onGrid q"
    and "sorted_wrt (\<lambda>a b. \<not> js_lt (rateOf a) (rateOf b)) ys"
  shows "sorted_wrt (\<lambda>a b. \<not> js_lt (rateOf a) (rateOf b)) (insertSorted compareFn x ys)"
  using assms
proof (induction ys)
  case Nil
  show ?case by simp
next
  case (Cons y ys)
  from Cons.prems(1) obtain qx qy where
    q: "rateOf x = Num qx" "onGrid qx" "rateOf y = Num qy" "onGrid qy" by auto
  note cmp = compareFn_neg[OF q]
  show ?case
  proof (cases "js_lt (compareFn y x) (Num 0)")
    case True
    then have lt: "qx < qy" by (simp add: cmp)
    have IH: "sorted_wrt (\<lambda>a b. \<not> js_lt (rateOf a) (rateOf b)) (insertSorted compareFn x ys)"
      using Cons by simp
    from True IH Cons.prems(2) lt show ?thesis by (auto simp: set_insertSorted q)
  next
    case False
    then have ge: "qy \<le> qx" by (simp add: cmp)
    have "\<not> js_lt (rateOf x) (rateOf z)" if "z \<in> set ys" for z
    proof -
      from Cons.prems(1) that obtain qz where qz: "rateOf z = Num qz" by auto
      from Cons.prems(2) that have "\<not> js_lt (rateOf y) (rateOf z)" by simp
      then show ?thesis using ge by (simp add: q qz)
    qed
    with False ge Cons.prems(2) show ?thesis by (auto simp: q)
  qed
qed

lemma sorted_arraySort_Num:
  assumes "\<forall>s\<in>set xs. \<exists>q. rateOf s = Num q \<and> onGrid q"
  shows "sorted_wrt (\<lambda>a b. \<not> js_lt (rateOf a) (rateOf b)) (arraySort compareFn xs)"
  using assms
proof (induction xs)
  case Nil
  show ?case by (simp add: arraySort_Nil)
next
  case (Cons x xs)
  show ?case unfolding arraySort_Cons
    by (rule sorted_insertSorted) (use Cons in \<open>simp_all add: set_arraySort\<close>)
qed

lemma sorted_all_NaN:
  "\<forall>s\<in>set xs. rateOf s = NaN \<Longrightarrow> sorted_wrt (\<lambda>a b. \<not> js_lt (rateOf a) (rateOf b)) xs"
  by (induction xs) auto

text \<open>Every generated coalition consists of roster parties.\<close>

lemma ksubs_subset: "c \<in> set (ksubs xs k) \<Longrightarrow> set c \<subseteq> set xs"
  using subseqs_powset[of xs] by (auto simp: ksubs_def)

lemma generateMajorityCoalitions_subset:
  assumes "generateMajorityCoalitions ps r = Some cs" and "c \<in> set cs"
  shows "set c \<subseteq> set ps"
proof -
  have req: "set (requiredOf ps r) \<subseteq> set ps" by (auto simp: requiredOf_def)
  have av: "set (availableOf ps r) \<subseteq> set ps" by (auto simp: availableOf_def)
  from assms obtain k sub where "sub \<in> set (ksubs (availableOf ps r) k)" "c = requiredOf ps r @ sub"
    unfolding generateMajorityCoalitions_char by (auto simp del: upt_Suc split: if_splits)
  with ksubs_subset[of sub "availableOf ps r" k] req av show ?thesis by auto
qed

text \<open>All rates of one run are numbers, or (without statements) all are NaN.\<close>

lemma rate_scoreAll_Num:
  assumes "\<forall>c\<in>set cs. \<forall>p\<in>set c. 0 \<le> party.seats p" and "sts \<noteq> []"
  shows "\<forall>s\<in>set (scoreAll sts cs). \<exists>q. rateOf s = Num q \<and> onGrid q"
proof
  fix s assume "s \<in> set (scoreAll sts cs)"
  then obtain c where c: "c \<in> set cs" "rateOf s = agreementRate (calculateCoalitionAgreement sts c)"
    by (auto simp: scoreAll_def)
  from assms(1) c(1) have "\<forall>p\<in>set c. 0 \<le> party.seats p" by blast
  from rate_bounds[OF this assms(2)] obtain q where
    q: "agreementRate (calculateCoalitionAgreement sts c) = Num q" by blast
  from rate_onGrid[OF q] q c(2) show "\<exists>q. rateOf s = Num q \<and> onGrid q" by simp
qed

lemma rate_scoreAll_NaN: "\<forall>s\<in>set (scoreAll [] cs). rateOf s = NaN"
  by (simp add: scoreAll_def rate_NaN)

lemma sorted_arraySort_scoreAll:
  assumes "\<forall>c\<in>set cs. \<forall>p\<in>set c. 0 \<le> party.seats p"
  shows "sorted_wrt (\<lambda>a b. \<not> js_lt (rateOf a) (rateOf b)) (arraySort compareFn (scoreAll sts cs))"
proof (cases "sts = []")
  case True
  show ?thesis unfolding True
    by (rule sorted_all_NaN) (simp add: set_arraySort rate_scoreAll_NaN)
next
  case False
  with assms show ?thesis by (intro sorted_arraySort_Num rate_scoreAll_Num)
qed

lemma ranking_example:
  "map_option (map (\<lambda>s. (coalition s, rateOf s)))
     (findBestCoalitions [partyX, partyY, partyB, partyC] [splitStatement] [])
   = Some [([partyX, partyB], Num 100), ([partyY, partyB], Num 100),
           ([partyX, partyB, partyC], Num 95), ([partyY, partyB, partyC], Num 95),
           ([partyX, partyY], Num 0)]"
  by code_simp

lemma search_example:
  "generateMajorityCoalitions [partyX, partyY, partyB, partyC] (Some []) =
     Some [[partyX, partyY], [partyX, partyB], [partyY, partyB],
           [partyX, partyY, partyB], [partyX, partyY, partyC], [partyX, partyB, partyC],
           [partyY, partyB, partyC], [partyX, partyY, partyB, partyC]]"
  by code_simp

text \<open>
  Claim C9. For a roster with non-negative seat counts (the loader keeps the parties with
  \<^verbatim>\<open>zetels > 0\<close>), \<open>findBestCoalitions\<close> returns the first 5 elements, or all if there
  are fewer, of a ranking of the scored candidates: the ranking is a rearrangement of the
  generator's candidates with their scores; no later element of it has a greater rate
  than an earlier one (with at least one statement every rate is a number, so the rates
  are in non-increasing order); and the candidates of any one rate are in the generator's
  order.
\<close>

theorem findBestCoalitions_top5:
  assumes "\<forall>p\<in>set ps. 0 \<le> party.seats p"
  shows "\<exists>cs ranked. generateMajorityCoalitions ps (Some r) = Some cs
     \<and> findBestCoalitions ps sts r = Some (take 5 ranked)
     \<and> length (take 5 ranked) = min 5 (length cs)
     \<and> mset ranked = mset (scoreAll sts cs)
     \<and> sorted_wrt (\<lambda>a b. \<not> js_lt (agreementRate (score a)) (agreementRate (score b))) ranked
     \<and> (\<forall>k. filter (\<lambda>s. agreementRate (score s) = k) ranked
               = filter (\<lambda>s. agreementRate (score s) = k) (scoreAll sts cs))
     \<and> (sts \<noteq> [] \<longrightarrow> (\<forall>s\<in>set ranked. \<exists>q. agreementRate (score s) = Num q))"
proof -
  from generateMajorityCoalitions_returns[of ps "Some r"] obtain cs where
    cs: "generateMajorityCoalitions ps (Some r) = Some cs" by blast
  let ?ranked = "arraySort compareFn (scoreAll sts cs)"
  have nonneg: "\<forall>c\<in>set cs. \<forall>p\<in>set c. 0 \<le> party.seats p"
    using generateMajorityCoalitions_subset[OF cs] assms by blast
  have res: "findBestCoalitions ps sts r = Some (take 5 ?ranked)"
    by (simp add: findBestCoalitions_def cs)
  have len: "length (take 5 ?ranked) = min 5 (length cs)"
    by (simp add: length_arraySort scoreAll_def min.commute)
  have perm: "mset ?ranked = mset (scoreAll sts cs)" by (rule mset_arraySort)
  have srt: "sorted_wrt (\<lambda>a b. \<not> js_lt (rateOf a) (rateOf b)) ?ranked"
    by (rule sorted_arraySort_scoreAll) (rule nonneg)
  have num: "\<forall>s\<in>set ?ranked. \<exists>q. rateOf s = Num q" if "sts \<noteq> []"
    using rate_scoreAll_Num[OF nonneg that] set_arraySort[of compareFn "scoreAll sts cs"]
    by blast
  have stab: "filter (\<lambda>s. rateOf s = k) ?ranked = filter (\<lambda>s. rateOf s = k) (scoreAll sts cs)"
    for k by (rule filter_arraySort)
  from cs res len perm srt num stab show ?thesis by blast
qed

theorem findBestCoalitions_top5_witness:
  "0 \<le> party.seats partyX \<and> 0 \<le> party.seats partyY \<and> 0 \<le> party.seats partyB
   \<and> 0 \<le> party.seats partyC \<and> [splitStatement] \<noteq> []
   \<and> (\<exists>cs res. generateMajorityCoalitions [partyX, partyY, partyB, partyC] (Some []) = Some cs
          \<and> length cs = 8
          \<and> findBestCoalitions [partyX, partyY, partyB, partyC] [splitStatement] [] = Some res
          \<and> length res = 5
          \<and> map (\<lambda>s. (coalition s, rateOf s)) res =
              [([partyX, partyB], Num 100), ([partyY, partyB], Num 100),
               ([partyX, partyB, partyC], Num 95), ([partyY, partyB, partyC], Num 95),
               ([partyX, partyY], Num 0)])"
proof -
  have seats: "0 \<le> party.seats partyX" "0 \<le> party.seats partyY" "0 \<le> party.seats partyB"
    "0 \<le> party.seats partyC"
    by (simp_all add: partyX_def partyY_def partyB_def partyC_def)
  then have "\<forall>p\<in>set [partyX, partyY, partyB, partyC]. 0 \<le> party.seats p" by simp
  from findBestCoalitions_top5[OF this, of "[]" "[splitStatement]"]
  obtain cs ranked where
    r: "generateMajorityCoalitions [partyX, partyY, partyB, partyC] (Some []) = Some cs"
      "findBestCoalitions [partyX, partyY, partyB, partyC] [splitStatement] [] = Some (take 5 ranked)"
      "length (take 5 ranked) = min 5 (length cs)" by blast
  from r(1) have n: "length cs = 8" unfolding search_example by auto
  from ranking_example have m: "map (\<lambda>s. (coalition s, rateOf s)) (take 5 ranked) =
              [([partyX, partyB], Num 100), ([partyY, partyB], Num 100),
               ([partyX, partyB, partyC], Num 95), ([partyY, partyB, partyC], Num 95),
               ([partyX, partyY], Num 0)]"
    unfolding r(2) by simp
  have l: "length (take 5 ranked) = 5" unfolding r(3) n by simp
  show ?thesis
  proof (intro conjI exI)
    show "generateMajorityCoalitions [partyX, partyY, partyB, partyC] (Some []) = Some cs"
      by (rule r(1))
    show "findBestCoalitions [partyX, partyY, partyB, partyC] [splitStatement] []
            = Some (take 5 ranked)" by (rule r(2))
  qed (use seats n m l in simp_all)
qed

end
